theory Spec2Isabelle
  imports Main
begin

section \<open>Flow graph data\<close>

text \<open>
  The vertices and edges of the extracted call-flow graph, as the fields of
  \<^verbatim>\<open>FlowNode\<close>, \<^verbatim>\<open>FlowEdge\<close> and \<^verbatim>\<open>CodeReference\<close> are used by
  \<^verbatim>\<open>AstService\<close>. Node and edge ids come from \<^verbatim>\<open>uuidv4()\<close>; they are modelled
  as natural numbers drawn from a counter, so that every fresh id differs from all
  earlier ones (and, like a uuid string, is never falsy).
\<close>

datatype node_type = EntryPoint | ExitPoint | Function | Condition | ManualStep | Note

datatype edge_type = DirectCall | ConditionalCall

record CodeReference =
  filePath :: string
  start_line :: int
  start_character :: int
  end_line :: int
  end_character :: int
  ref_identifier :: "string option"

record FlowNode =
  nid :: nat
  label :: string
  ntype :: node_type
  codeReference :: "CodeReference option"
  description :: "string option"

record FlowEdge =
  eid :: nat
  efrom :: nat
  eto :: nat
  etype :: edge_type

record parse_result =
  nodes :: "FlowNode list"
  edges :: "FlowEdge list"
  entryNodeId :: "nat option"
  exitNodeId :: "nat option"

definition empty_result :: parse_result where
  "empty_result = \<lparr>nodes = [], edges = [], entryNodeId = None, exitNodeId = None\<rparr>"

section \<open>Source files as the syntax library presents them\<close>

text \<open>
  A node's extent: 1-indexed line and column of its start and of its end
  (\<^verbatim>\<open>getStartLineNumber\<close>, \<^verbatim>\<open>getEndLineNumber\<close>, \<^verbatim>\<open>getLineAndColumnAtPos\<close>).
\<close>

record span =
  startLineNumber :: int
  startColumn :: int
  endLineNumber :: int
  endColumn :: int

datatype decl_kind =
  FunctionDeclaration | MethodDeclaration | ArrowFunction | FunctionExpression | OtherDeclaration

text \<open>
  What the walk reads from \<^verbatim>\<open>callee.getSymbol().getDeclarations()[0]\<close>: its kind, the
  path of its source file, \<^verbatim>\<open>getName()\<close>, the names of an enclosing variable
  declaration or property (for arrow functions) and its start line.
\<close>

record decl_ref =
  decl_kind :: decl_kind
  decl_file :: string
  decl_name :: "string option"
  decl_parent_var :: "string option"
  decl_parent_prop :: "string option"
  decl_line :: int

datatype callee =
  Identifier string
  | PropertyAccessExpression string string
  | OtherCallee string

text \<open>
  A call expression carries its callee and the result of symbol resolution:
  \<open>None\<close> when \<^verbatim>\<open>getSymbol()\<close> is undefined, otherwise the list of declarations.
\<close>

datatype node_kind = CallExpression callee "decl_ref list option" | OtherSyntax

datatype ast = Node span node_kind "ast list"

text \<open>
  A function-like node (function declaration, method, arrow function or function
  expression): \<open>fn_last_token\<close> is
  \<^verbatim>\<open>getLastChildByKind(CloseBraceToken) || getLastToken()\<close>, its extent together with
  its text when the token is an identifier (as the last token of \<^verbatim>\<open>x => y\<close> is);
  \<open>fn_parent_name\<close> is the name of the variable declaration or property an arrow
  function is the initializer of. \<open>fn_children\<close> are the children of the whole
  declaration, as \<^verbatim>\<open>forEachDescendant\<close> descends into them: its name, its parameters
  with their default values, and its body.
\<close>

record func_node =
  fn_kind :: decl_kind
  fn_name :: "string option"
  fn_parent_name :: "string option"
  fn_span :: span
  fn_last_token :: "(span \<times> string option) option"
  fn_children :: "ast list"

datatype initializer = FunctionLike func_node | OtherInitializer

record named_decl =
  nd_name :: string
  nd_span :: span
  nd_initializer :: "initializer option"

record class_decl =
  cls_methods :: "func_node list"
  cls_properties :: "named_decl list"

text \<open>
  A source file: \<open>sf_path\<close> is what \<^verbatim>\<open>getFilePath()\<close> returns for it, the path in the
  library's own form, whatever path the file was asked for under.
\<close>

record source_file =
  sf_path :: string
  sf_functions :: "func_node list"
  sf_classes :: "class_decl list"
  sf_variableDeclarations :: "named_decl list"
  file_children :: "ast list"
  file_span :: span

section \<open>Declaration lookup\<close>

definition isNodeAroundLine :: "span \<Rightarrow> int \<Rightarrow> bool" where
  "isNodeAroundLine sp targetLine \<longleftrightarrow>
     targetLine \<ge> startLineNumber sp \<and> targetLine \<le> endLineNumber sp"

text \<open>The recurring test \<^verbatim>\<open>targetLine === undefined || this.isNodeAroundLine(n, targetLine)\<close>.\<close>

definition line_accepts :: "int option \<Rightarrow> span \<Rightarrow> bool" where
  "line_accepts targetLine sp =
     (case targetLine of None \<Rightarrow> True | Some l \<Rightarrow> isNodeAroundLine sp l)"

definition isArrowFunction :: "initializer \<Rightarrow> bool" where
  "isArrowFunction i = (case i of FunctionLike f \<Rightarrow> fn_kind f = ArrowFunction | OtherInitializer \<Rightarrow> False)"

definition isFunctionExpression :: "initializer \<Rightarrow> bool" where
  "isFunctionExpression i =
     (case i of FunctionLike f \<Rightarrow> fn_kind f = FunctionExpression | OtherInitializer \<Rightarrow> False)"

definition the_function :: "initializer \<Rightarrow> func_node option" where
  "the_function i = (case i of FunctionLike f \<Rightarrow> Some f | OtherInitializer \<Rightarrow> None)"

text \<open>
  \<^verbatim>\<open>c.getProperties().forEach\<close>: once \<open>foundFunc\<close> is set the remaining properties
  are passed over.
\<close>

fun scan_properties ::
  "string \<Rightarrow> int option \<Rightarrow> named_decl list \<Rightarrow> func_node option \<Rightarrow> func_node option" where
  "scan_properties functionName targetLine [] foundFunc = foundFunc"
| "scan_properties functionName targetLine (p # ps) foundFunc =
     scan_properties functionName targetLine ps
       (if foundFunc \<noteq> None then foundFunc
        else case nd_initializer p of
          None \<Rightarrow> None
        | Some i \<Rightarrow>
            if isArrowFunction i \<and> nd_name p = functionName \<and> line_accepts targetLine (nd_span p)
            then the_function i else None)"

text \<open>\<^verbatim>\<open>sourceFile.getClasses().forEach\<close>: per class, its methods first, then its properties.\<close>

fun scan_classes ::
  "string \<Rightarrow> int option \<Rightarrow> class_decl list \<Rightarrow> func_node option \<Rightarrow> func_node option" where
  "scan_classes functionName targetLine [] foundFunc = foundFunc"
| "scan_classes functionName targetLine (c # cs) foundFunc =
     scan_classes functionName targetLine cs
       (if foundFunc \<noteq> None then foundFunc
        else case find (\<lambda>m. fn_name m = Some functionName \<and> line_accepts targetLine (fn_span m))
                    (cls_methods c) of
          Some m \<Rightarrow> Some m
        | None \<Rightarrow> scan_properties functionName targetLine (cls_properties c) None)"

text \<open>\<^verbatim>\<open>sourceFile.getVariableDeclarations().forEach\<close>.\<close>

fun scan_variables ::
  "string \<Rightarrow> int option \<Rightarrow> named_decl list \<Rightarrow> func_node option \<Rightarrow> func_node option" where
  "scan_variables functionName targetLine [] foundFunc = foundFunc"
| "scan_variables functionName targetLine (vd # vds) foundFunc =
     scan_variables functionName targetLine vds
       (if foundFunc \<noteq> None then foundFunc
        else if nd_name vd = functionName then
          (case nd_initializer vd of
             None \<Rightarrow> None
           | Some i \<Rightarrow>
               if (isArrowFunction i \<or> isFunctionExpression i) \<and> line_accepts targetLine (nd_span vd)
               then the_function i else None)
        else None)"

definition findFunctionByName :: "source_file \<Rightarrow> string \<Rightarrow> int option \<Rightarrow> func_node option" where
  "findFunctionByName sourceFile functionName targetLine =
     (case find (\<lambda>f. fn_name f = Some functionName \<and> line_accepts targetLine (fn_span f))
             (sf_functions sourceFile) of
        Some f \<Rightarrow> Some f
      | None \<Rightarrow>
          (case scan_classes functionName targetLine (sf_classes sourceFile) None of
             Some f \<Rightarrow> Some f
           | None \<Rightarrow>
               scan_variables functionName targetLine (sf_variableDeclarations sourceFile) None))"

section \<open>Text helpers\<close>

text \<open>
  A line number inside a template literal. Line numbers are integers (positions of the
  editor plus one, and start lines of declarations); for an integer of magnitude below
  \<^verbatim>\<open>1e21\<close>, as every line number of a file is, the literal prints its decimal
  digits, which is what \<open>string_of_int\<close> gives. Larger numbers, which the literal prints
  in exponent form, are outside the model; the properties below do not depend on how a
  number is printed.
\<close>

fun string_of_nat :: "nat \<Rightarrow> string" where
  "string_of_nat n =
     (if n < 10 then [''0123456789'' ! n]
      else string_of_nat (n div 10) @ [''0123456789'' ! (n mod 10)])"

declare string_of_nat.simps [simp del]

definition string_of_int :: "int \<Rightarrow> string" where
  "string_of_int i = (if i < 0 then CHR ''-'' # string_of_nat (nat (- i)) else string_of_nat (nat i))"

text \<open>\<^verbatim>\<open>${startLine}\<close> for an optional number: \<^verbatim>\<open>undefined\<close> prints as such.\<close>

definition render_line :: "int option \<Rightarrow> string" where
  "render_line l = (case l of None \<Rightarrow> ''undefined'' | Some n \<Rightarrow> string_of_int n)"

text \<open>
  \<^verbatim>\<open>path.basename\<close>, POSIX flavour, for a path that does not end in a slash: the part
  after the last slash (on Windows the function also splits at backslashes). It only
  enters the labels and descriptions of block and file scopes, and the properties below
  do not depend on where it splits.
\<close>

definition basename :: "string \<Rightarrow> string" where
  "basename p = rev (takeWhile (\<lambda>c. c \<noteq> CHR ''/'') (rev p))"

text \<open>A string-valued optional parameter is truthy when it is defined and non-empty.\<close>

definition truthy :: "string option \<Rightarrow> bool" where
  "truthy s = (case s of None \<Rightarrow> False | Some n \<Rightarrow> n \<noteq> [])"

section \<open>Requests and code references\<close>

record request =
  q_filePath :: string
  q_functionName :: "string option"
  q_startLine :: "int option"
  q_endLine :: "int option"
  q_isRecursiveCall :: bool
  q_callerNodeId :: "nat option"

definition visitedKey :: "request \<Rightarrow> string" where
  "visitedKey q =
     q_filePath q @ ''::'' @
       (case q_functionName q of
          Some n \<Rightarrow> if n \<noteq> [] then n
                    else ''range:'' @ render_line (q_startLine q) @ ''-'' @ render_line (q_endLine q)
        | None \<Rightarrow> ''range:'' @ render_line (q_startLine q) @ ''-'' @ render_line (q_endLine q))"

text \<open>
  \<^verbatim>\<open>createCodeReference\<close>: \<open>path\<close> is \<^verbatim>\<open>getFilePath()\<close> of the node's source file, the
  positions are 0-indexed, and \<open>identifierName\<close> is what the name extraction at its
  head yields for the node.
\<close>

definition createCodeReference :: "string \<Rightarrow> span \<Rightarrow> string option \<Rightarrow> CodeReference" where
  "createCodeReference path sp identifierName =
     \<lparr>filePath = path,
      start_line = startLineNumber sp - 1, start_character = startColumn sp - 1,
      end_line = endLineNumber sp - 1, end_character = endColumn sp - 1,
      ref_identifier = identifierName\<rparr>"

definition function_identifier :: "func_node \<Rightarrow> string option" where
  "function_identifier f =
     (if fn_kind f = FunctionDeclaration \<or> fn_kind f = MethodDeclaration
         \<or> fn_kind f = FunctionExpression then fn_name f
      else if fn_kind f = ArrowFunction then fn_parent_name f
      else None)"

section \<open>Invocations in flight\<close>

text \<open>
  \<^verbatim>\<open>parseFunctionCalls\<close> is asynchronous. An invocation runs without interruption from
  its call to the first \<^verbatim>\<open>await\<close> (clearing, testing and extending the visited set),
  again from the loaded file to \<^verbatim>\<open>await Promise.all\<close> (scope resolution and the whole
  walk, which starts the invocations of the callees), and again from there to its
  \<^verbatim>\<open>return\<close>. Each \<^verbatim>\<open>.then\<close> callback runs in one piece when the callee's promise
  has resolved. The order in which suspended invocations are resumed is not fixed by
  the code; a scheduler argument chooses it.

  \<open>scope\<close> holds the variables of an invocation suspended at \<^verbatim>\<open>Promise.all\<close> that its
  callbacks and its last section use.
\<close>

record scope =
  localNodes :: "FlowNode list"
  localEdges :: "FlowEdge list"
  currentScopeEntryNodeId :: nat
  currentScopeExitNodeId :: nat
  lastProcessedNodeIdInCurrentScope :: nat

datatype status =
  Loading
  | Awaiting scope
  | Resolved parse_result
  | Delivered

text \<open>
  \<open>fr_then\<close> is the \<^verbatim>\<open>.then\<close> callback attached to the invocation's promise: the
  invocation it belongs to (an index into the pool) and the \<^verbatim>\<open>callSiteNodeId\<close> it
  closes over. The top-level invocation has none.
\<close>

record frame =
  fr_request :: request
  fr_then :: "(nat \<times> nat) option"
  fr_status :: status

record service =
  visitedFunctions :: "string set"
  next_uuid :: nat
  frames :: "frame list"

text \<open>
  From the call to the first suspension point: the visited set is cleared for a
  top-level call, a key already present ends the invocation with the empty result,
  otherwise the key is added and the invocation waits for its file.
\<close>

definition enter :: "request \<Rightarrow> string set \<Rightarrow> string set \<times> status" where
  "enter q visited =
     (let visited0 = (if \<not> q_isRecursiveCall q then {} else visited) in
      if visitedKey q \<in> visited0 then (visited0, Resolved empty_result)
      else (insert (visitedKey q) visited0, Loading))"

section \<open>The walk over a scope\<close>

record scan =
  sc_visited :: "string set"
  sc_uuid :: nat
  sc_nodes :: "FlowNode list"
  sc_edges :: "FlowEdge list"
  sc_last :: nat
  sc_spawned :: "frame list"

definition callName :: "callee \<Rightarrow> string" where
  "callName c =
     (case c of
        Identifier t \<Rightarrow> t
      | PropertyAccessExpression e n \<Rightarrow> e @ ''.'' @ n
      | OtherCallee t \<Rightarrow> t)"

text \<open>
  The target of the recursive expansion of a call, when there is one: the first
  declaration is function-like and its file is not under \<^verbatim>\<open>node_modules\<close>.
\<close>

definition includes_node_modules :: "string \<Rightarrow> bool" where
  "includes_node_modules p = (\<exists>i \<in> set [0..<Suc (length p)]. take 12 (drop i p) = ''node_modules'')"

definition targetFunctionName :: "decl_ref \<Rightarrow> string" where
  "targetFunctionName d =
     (let n =
        (if decl_kind d = FunctionDeclaration \<or> decl_kind d = MethodDeclaration
            \<or> decl_kind d = FunctionExpression then decl_name d
         else if decl_kind d = ArrowFunction then
           (case decl_parent_var d of Some v \<Rightarrow> Some v | None \<Rightarrow> decl_parent_prop d)
         else None)
      in if truthy n then the n else ''anonymous_func_at_L'' @ string_of_int (decl_line d))"

definition recursion_target :: "decl_ref list option \<Rightarrow> decl_ref option" where
  "recursion_target symbol =
     (case symbol of
        None \<Rightarrow> None
      | Some declarations \<Rightarrow>
          (case declarations of
             [] \<Rightarrow> None
           | d # _ \<Rightarrow>
               if (decl_kind d = FunctionDeclaration \<or> decl_kind d = MethodDeclaration
                     \<or> decl_kind d = ArrowFunction \<or> decl_kind d = FunctionExpression)
                  \<and> \<not> includes_node_modules (decl_file d)
               then Some d else None))"

definition target_request :: "decl_ref \<Rightarrow> nat \<Rightarrow> request" where
  "target_request d callSiteNodeId =
     \<lparr>q_filePath = decl_file d, q_functionName = Some (targetFunctionName d),
      q_startLine = Some (decl_line d), q_endLine = None,
      q_isRecursiveCall = True, q_callerNodeId = Some callSiteNodeId\<rparr>"

text \<open>
  The call-site Step and the edge from the previous Step of the scope. The test
  \<^verbatim>\<open>if (lastProcessedNodeIdInCurrentScope)\<close> always succeeds: the variable holds an id
  from the start of the walk on.
\<close>

definition add_call_site :: "string \<Rightarrow> span \<Rightarrow> callee \<Rightarrow> scan \<Rightarrow> scan" where
  "add_call_site path sp c s =
     s\<lparr>sc_nodes := sc_nodes s @
          [\<lparr>nid = sc_uuid s, label = ''Call: '' @ callName c, ntype = Function,
            codeReference = Some (createCodeReference path sp None),
            description = Some (''Invocation of '' @ callName c)\<rparr>],
       sc_edges := sc_edges s @
          [\<lparr>eid = Suc (sc_uuid s), efrom = sc_last s, eto = sc_uuid s, etype = DirectCall\<rparr>],
       sc_uuid := Suc (Suc (sc_uuid s))\<rparr>"

text \<open>
  Starting the callee's invocation: it runs to its first suspension point at once,
  inside the walk, and its \<^verbatim>\<open>.then\<close> callback is attached.
\<close>

definition spawn :: "nat \<Rightarrow> decl_ref \<Rightarrow> nat \<Rightarrow> scan \<Rightarrow> scan" where
  "spawn self d callSiteNodeId s =
     (let q = target_request d callSiteNodeId;
          (visited', st) = enter q (sc_visited s)
      in s\<lparr>sc_visited := visited',
           sc_spawned := sc_spawned s @
             [\<lparr>fr_request = q, fr_then = Some (self, callSiteNodeId), fr_status = st\<rparr>],
           sc_last := callSiteNodeId\<rparr>)"

datatype window = Inside | Overlapping | Disjoint

text \<open>The line-window test at the head of the walk's callback.\<close>

definition window_test :: "int option \<Rightarrow> int option \<Rightarrow> span \<Rightarrow> window" where
  "window_test startLine endLine sp =
     (case (startLine, endLine) of
        (Some s, Some e) \<Rightarrow>
          if startLineNumber sp < s \<or> endLineNumber sp > e then
            (if endLineNumber sp < s \<or> startLineNumber sp > e then Disjoint else Overlapping)
          else Inside
      | _ \<Rightarrow> Inside)"

text \<open>
  \<^verbatim>\<open>forEachDescendant\<close>: the descendants in document order, parents before children;
  \<^verbatim>\<open>traversal.skip()\<close> leaves out the children of the current node.
\<close>

fun visit :: "nat \<Rightarrow> string \<Rightarrow> int option \<Rightarrow> int option \<Rightarrow> ast \<Rightarrow> scan \<Rightarrow> scan"
  and visit_all :: "nat \<Rightarrow> string \<Rightarrow> int option \<Rightarrow> int option \<Rightarrow> ast list \<Rightarrow> scan \<Rightarrow> scan" where
  "visit self path startLine endLine (Node sp k children) s =
     (case window_test startLine endLine sp of
        Disjoint \<Rightarrow> s
      | Overlapping \<Rightarrow> visit_all self path startLine endLine children s
      | Inside \<Rightarrow>
          (case k of
             OtherSyntax \<Rightarrow> visit_all self path startLine endLine children s
           | CallExpression c symbol \<Rightarrow>
               (case recursion_target symbol of
                  Some d \<Rightarrow> spawn self d (sc_uuid s) (add_call_site path sp c s)
                | None \<Rightarrow>
                    visit_all self path startLine endLine children
                      ((add_call_site path sp c s)\<lparr>sc_last := sc_uuid s\<rparr>))))"
| "visit_all self path startLine endLine [] s = s"
| "visit_all self path startLine endLine (n # ns) s =
     visit_all self path startLine endLine ns (visit self path startLine endLine n s)"

section \<open>Scope resolution\<close>

text \<open>
  The outcome of the section between the loaded file and the walk: either the
  invocation returns at once, or it has synthesized its boundary Steps and goes on
  to walk \<open>rootNodeToScan\<close>.
\<close>

datatype resolution =
  Return parse_result nat
  | Proceed "ast list" "FlowNode list" "nat option" "nat option" nat

definition function_boundary ::
  "source_file \<Rightarrow> request \<Rightarrow> string \<Rightarrow> func_node \<Rightarrow> nat \<Rightarrow> FlowNode list" where
  "function_boundary sourceFile q functionName foundFunction u =
     [\<lparr>nid = u, label = functionName,
       ntype = (if q_isRecursiveCall q then Function else EntryPoint),
       codeReference =
         Some (createCodeReference (sf_path sourceFile) (fn_span foundFunction)
                 (function_identifier foundFunction)),
       description =
         Some ((if q_isRecursiveCall q then ''Function'' else ''Entry'') @ '': '' @ functionName)\<rparr>,
      \<lparr>nid = Suc u, label = ''Exit '' @ functionName, ntype = ExitPoint,
       codeReference =
         Some (case fn_last_token foundFunction of
                 Some (t, identifierName) \<Rightarrow>
                   createCodeReference (sf_path sourceFile) t identifierName
               | None \<Rightarrow>
                   createCodeReference (sf_path sourceFile) (fn_span foundFunction)
                     (function_identifier foundFunction)),
       description = Some (''Exit of '' @ functionName)\<rparr>]"

definition block_boundary :: "request \<Rightarrow> nat \<Rightarrow> FlowNode list" where
  "block_boundary q u =
     [\<lparr>nid = u,
       label = ''Code Block (Lines '' @ render_line (q_startLine q) @ ''-''
                 @ render_line (q_endLine q) @ '')'',
       ntype = EntryPoint, codeReference = None,
       description = Some (''Selected code block in '' @ basename (q_filePath q))\<rparr>,
      \<lparr>nid = Suc u,
       label = ''Exit Block (Lines '' @ render_line (q_startLine q) @ ''-''
                 @ render_line (q_endLine q) @ '')'',
       ntype = ExitPoint, codeReference = None,
       description = Some (''Exit of selected block in '' @ basename (q_filePath q))\<rparr>]"

definition file_boundary :: "request \<Rightarrow> source_file \<Rightarrow> nat \<Rightarrow> FlowNode list" where
  "file_boundary q sourceFile u =
     [\<lparr>nid = u, label = basename (q_filePath q), ntype = EntryPoint,
       codeReference = Some (createCodeReference (sf_path sourceFile) (file_span sourceFile) None),
       description = Some (''Entry: File '' @ basename (q_filePath q))\<rparr>,
      \<lparr>nid = Suc u, label = ''Exit File '' @ basename (q_filePath q), ntype = ExitPoint,
       codeReference = None,
       description = Some (''Exit of file '' @ basename (q_filePath q))\<rparr>]"

definition unresolved_note :: "request \<Rightarrow> string \<Rightarrow> nat \<Rightarrow> FlowNode" where
  "unresolved_note q functionName u =
     \<lparr>nid = u, label = ''Unresolved: '' @ functionName, ntype = Note, codeReference = None,
      description =
        Some (''Function '' @ functionName @ '' in '' @ q_filePath q
                @ '' not found during recursive call.'')\<rparr>"

text \<open>
  \<open>loaded\<close> is the outcome of the \<^verbatim>\<open>try\<close> block: the source file the invocation goes
  on with, or \<open>None\<close> when the file could not be added or refreshed, in which case the
  \<^verbatim>\<open>catch\<close> branch returns the empty result.
\<close>

definition resolve_scope :: "source_file option \<Rightarrow> request \<Rightarrow> nat \<Rightarrow> resolution" where
  "resolve_scope loaded q u =
     (case loaded of
        None \<Rightarrow> Return empty_result u
      | Some sourceFile \<Rightarrow>
          if truthy (q_functionName q) then
            (case findFunctionByName sourceFile (the (q_functionName q)) (q_startLine q) of
               Some foundFunction \<Rightarrow>
                 Proceed (fn_children foundFunction)
                   (function_boundary sourceFile q (the (q_functionName q)) foundFunction u)
                   (Some u) (Some (Suc u)) (Suc (Suc u))
             | None \<Rightarrow>
                 (case q_callerNodeId q of
                    Some caller \<Rightarrow>
                      Return \<lparr>nodes = [unresolved_note q (the (q_functionName q)) u], edges = [],
                              entryNodeId = Some u, exitNodeId = Some u\<rparr> (Suc u)
                  | None \<Rightarrow> Return empty_result u))
          else if q_startLine q \<noteq> None \<and> q_endLine q \<noteq> None \<and> \<not> q_isRecursiveCall q then
            Proceed (file_children sourceFile) (block_boundary q u)
              (Some u) (Some (Suc u)) (Suc (Suc u))
          else if \<not> q_isRecursiveCall q then
            Proceed (file_children sourceFile) (file_boundary q sourceFile u)
              (Some u) (Some (Suc u)) (Suc (Suc u))
          else Return empty_result u)"

section \<open>The three resumptions of an invocation\<close>

text \<open>
  The project gives, for a path and an invocation (its position in the pool, the
  top-level invocation being the first), the source file that invocation holds after
  its \<^verbatim>\<open>try\<close> block, if any. Two invocations of one request need not see the same
  tree for the same path: a file that the library's project does not hold yet is
  added and reformatted in memory (\<^verbatim>\<open>addSourceFileAtPath\<close>, \<^verbatim>\<open>formatText\<close>), a file it
  holds is read again from disk (\<^verbatim>\<open>refreshFromFileSystem\<close>), and the text on disk may
  change meanwhile. Nor need the path a file is asked for under be its
  \<^verbatim>\<open>getFilePath()\<close>.
\<close>

type_synonym project = "string \<Rightarrow> nat \<Rightarrow> source_file option"

text \<open>The path that the code references of the walk carry.\<close>

definition source_path :: "source_file option \<Rightarrow> string" where
  "source_path loaded = (case loaded of Some sourceFile \<Rightarrow> sf_path sourceFile | None \<Rightarrow> [])"

definition set_status :: "nat \<Rightarrow> status \<Rightarrow> frame list \<Rightarrow> frame list" where
  "set_status i st fs = fs[i := (fs ! i)\<lparr>fr_status := st\<rparr>]"

text \<open>
  After the file is loaded: resolve the scope, and unless the invocation returns,
  walk it, starting the callees' invocations, and suspend at \<^verbatim>\<open>Promise.all\<close>.
\<close>

definition resume :: "project \<Rightarrow> nat \<Rightarrow> service \<Rightarrow> service" where
  "resume project i sv =
     (let q = fr_request (frames sv ! i);
          loaded = project (q_filePath q) i in
      case resolve_scope loaded q (next_uuid sv) of
        Return r u \<Rightarrow> sv\<lparr>next_uuid := u, frames := set_status i (Resolved r) (frames sv)\<rparr>
      | Proceed root ns entry exit u \<Rightarrow>
          (case (entry, exit) of
             (Some en, Some ex) \<Rightarrow>
               (let s = visit_all i (source_path loaded) (q_startLine q) (q_endLine q) root
                          \<lparr>sc_visited = visitedFunctions sv, sc_uuid = u, sc_nodes = ns,
                           sc_edges = [], sc_last = en, sc_spawned = []\<rparr>
                in \<lparr>visitedFunctions = sc_visited s, next_uuid = sc_uuid s,
                    frames =
                      set_status i
                        (Awaiting \<lparr>localNodes = sc_nodes s, localEdges = sc_edges s,
                                   currentScopeEntryNodeId = en, currentScopeExitNodeId = ex,
                                   lastProcessedNodeIdInCurrentScope = sc_last s\<rparr>)
                        (frames sv) @ sc_spawned s\<rparr>)
           | _ \<Rightarrow>
               sv\<lparr>next_uuid := u,
                  frames :=
                    set_status i
                      (Resolved \<lparr>nodes = ns, edges = [], entryNodeId = entry, exitNodeId = exit\<rparr>)
                      (frames sv)\<rparr>))"

text \<open>
  The \<^verbatim>\<open>.then\<close> callback of a callee's promise, run in the caller's scope. It reads
  \<open>lastProcessedNodeIdInCurrentScope\<close> as it is when the callback runs, that is, after
  the caller's walk has ended.
\<close>

definition on_result :: "nat \<Rightarrow> parse_result \<Rightarrow> scope \<Rightarrow> nat \<Rightarrow> scope \<times> nat" where
  "on_result callSiteNodeId recursiveResult sc u =
     (case entryNodeId recursiveResult of
        None \<Rightarrow> (sc, u)
      | Some entry \<Rightarrow>
          if nodes recursiveResult = [] then (sc, u)
          else
            (let ns = localNodes sc @ nodes recursiveResult;
                 es = localEdges sc @ edges recursiveResult
                        @ [\<lparr>eid = u, efrom = callSiteNodeId, eto = entry, etype = DirectCall\<rparr>]
             in case exitNodeId recursiveResult of
                  None \<Rightarrow> (sc\<lparr>localNodes := ns, localEdges := es\<rparr>, Suc u)
                | Some exit \<Rightarrow>
                    if \<exists>edge \<in> set es. efrom edge = exit
                    then (sc\<lparr>localNodes := ns, localEdges := es\<rparr>, Suc u)
                    else
                      (sc\<lparr>localNodes := ns,
                          localEdges := es @
                            [\<lparr>eid = Suc u, efrom = exit,
                              eto = lastProcessedNodeIdInCurrentScope sc, etype = DirectCall\<rparr>]\<rparr>,
                       Suc (Suc u))))"

definition deliver :: "nat \<Rightarrow> service \<Rightarrow> service" where
  "deliver j sv =
     (case (fr_status (frames sv ! j), fr_then (frames sv ! j)) of
        (Resolved r, Some (i, callSiteNodeId)) \<Rightarrow>
          (case (if i < length (frames sv) then fr_status (frames sv ! i) else Delivered) of
             Awaiting sc \<Rightarrow>
               (let (sc', u) = on_result callSiteNodeId r sc (next_uuid sv)
                in sv\<lparr>next_uuid := u,
                      frames := set_status j Delivered (set_status i (Awaiting sc') (frames sv))\<rparr>)
           | _ \<Rightarrow> sv\<lparr>frames := set_status j Delivered (frames sv)\<rparr>)
      | _ \<Rightarrow> sv)"

text \<open>After \<^verbatim>\<open>Promise.all\<close>: the edge into the scope's exit, and the return.\<close>

definition finish :: "scope \<Rightarrow> nat \<Rightarrow> parse_result \<times> nat" where
  "finish sc u =
     (let last = lastProcessedNodeIdInCurrentScope sc;
          hasOutgoingEdgeFromLast = (\<exists>edge \<in> set (localEdges sc). efrom edge = last)
      in if last \<noteq> currentScopeExitNodeId sc \<and> \<not> hasOutgoingEdgeFromLast then
           (\<lparr>nodes = localNodes sc,
             edges = localEdges sc @
               [\<lparr>eid = u, efrom = last, eto = currentScopeExitNodeId sc, etype = DirectCall\<rparr>],
             entryNodeId = Some (currentScopeEntryNodeId sc),
             exitNodeId = Some (currentScopeExitNodeId sc)\<rparr>, Suc u)
         else if last = currentScopeEntryNodeId sc
               \<and> currentScopeEntryNodeId sc \<noteq> currentScopeExitNodeId sc
               \<and> length (localNodes sc) \<le> 2 then
           (\<lparr>nodes = localNodes sc,
             edges = localEdges sc @
               [\<lparr>eid = u, efrom = currentScopeEntryNodeId sc,
                 eto = currentScopeExitNodeId sc, etype = DirectCall\<rparr>],
             entryNodeId = Some (currentScopeEntryNodeId sc),
             exitNodeId = Some (currentScopeExitNodeId sc)\<rparr>, Suc u)
         else
           (\<lparr>nodes = localNodes sc, edges = localEdges sc,
             entryNodeId = Some (currentScopeEntryNodeId sc),
             exitNodeId = Some (currentScopeExitNodeId sc)\<rparr>, u))"

text \<open>\<^verbatim>\<open>Promise.all\<close> has resolved when every callback of the invocation has run.\<close>

definition children_settled :: "nat \<Rightarrow> frame list \<Rightarrow> bool" where
  "children_settled i fs =
     list_all (\<lambda>f. case fr_then f of
                     Some (p, c) \<Rightarrow> p = i \<longrightarrow> fr_status f = Delivered
                   | None \<Rightarrow> True) fs"

definition complete :: "nat \<Rightarrow> service \<Rightarrow> service" where
  "complete i sv =
     (case fr_status (frames sv ! i) of
        Awaiting sc \<Rightarrow>
          (let (r, u) = finish sc (next_uuid sv)
           in sv\<lparr>next_uuid := u, frames := set_status i (Resolved r) (frames sv)\<rparr>)
      | _ \<Rightarrow> sv)"

section \<open>Scheduling\<close>

definition enabled :: "service \<Rightarrow> nat \<Rightarrow> bool" where
  "enabled sv i =
     (case fr_status (frames sv ! i) of
        Loading \<Rightarrow> True
      | Awaiting sc \<Rightarrow> children_settled i (frames sv)
      | Resolved r \<Rightarrow> fr_then (frames sv ! i) \<noteq> None
      | Delivered \<Rightarrow> False)"

definition step :: "project \<Rightarrow> nat \<Rightarrow> service \<Rightarrow> service" where
  "step project i sv =
     (case fr_status (frames sv ! i) of
        Loading \<Rightarrow> resume project i sv
      | Awaiting sc \<Rightarrow> complete i sv
      | Resolved r \<Rightarrow> deliver i sv
      | Delivered \<Rightarrow> sv)"

definition runnable :: "service \<Rightarrow> nat list" where
  "runnable sv = filter (enabled sv) [0..<length (frames sv)]"

text \<open>
  The event loop: as long as some invocation can be resumed, the scheduler picks one
  (\<open>sched t\<close> at the \<open>t\<close>-th turn, read modulo the number of candidates).
\<close>

partial_function (option) run :: "project \<Rightarrow> (nat \<Rightarrow> nat) \<Rightarrow> nat \<Rightarrow> service \<Rightarrow> service option" where
  "run project sched t sv =
     (if runnable sv = [] then Some sv
      else run project sched (Suc t)
             (step project (runnable sv ! (sched t mod length (runnable sv))) sv))"

declare run.simps [code]

text \<open>
  \<^verbatim>\<open>parseFunctionCalls\<close> as a caller sees it: the result its promise resolves with,
  \<open>None\<close> if it never does. \<open>visited\<close> and \<open>uuid\<close> are the service's visited set and
  the id source as earlier requests left them.
\<close>

definition parseFunctionCalls ::
  "project \<Rightarrow> (nat \<Rightarrow> nat) \<Rightarrow> string set \<Rightarrow> nat \<Rightarrow> request \<Rightarrow> parse_result option" where
  "parseFunctionCalls project sched visited uuid q =
     (let (visited', st) = enter q visited in
      case run project sched 0
             \<lparr>visitedFunctions = visited', next_uuid = uuid,
              frames = [\<lparr>fr_request = q, fr_then = None, fr_status = st\<rparr>]\<rparr> of
        None \<Rightarrow> None
      | Some sv \<Rightarrow>
          (case fr_status (frames sv ! 0) of Resolved r \<Rightarrow> Some r | _ \<Rightarrow> None))"

text \<open>The public operation: \<open>isRecursiveCall\<close> and \<open>callerNodeId\<close> take their defaults.\<close>

definition extract_top ::
  "project \<Rightarrow> (nat \<Rightarrow> nat) \<Rightarrow> string set \<Rightarrow> nat \<Rightarrow>
     string \<Rightarrow> string option \<Rightarrow> int option \<Rightarrow> int option \<Rightarrow> parse_result option" where
  "extract_top project sched visited uuid path functionName startLine endLine =
     parseFunctionCalls project sched visited uuid
       \<lparr>q_filePath = path, q_functionName = functionName, q_startLine = startLine,
        q_endLine = endLine, q_isRecursiveCall = False, q_callerNodeId = None\<rparr>"

section \<open>Notions used to state the properties\<close>

text \<open>Whether a subtree contains a call expression at all.\<close>

fun has_call :: "ast \<Rightarrow> bool" and has_call_list :: "ast list \<Rightarrow> bool" where
  "has_call (Node sp k children) =
     (case k of CallExpression c symbol \<Rightarrow> True | OtherSyntax \<Rightarrow> has_call_list children)"
| "has_call_list [] = False"
| "has_call_list (n # ns) = (has_call n \<or> has_call_list ns)"

text \<open>Every node of a real syntax tree ends on or after the line it starts on.\<close>

fun well_formed :: "ast \<Rightarrow> bool" and well_formed_list :: "ast list \<Rightarrow> bool" where
  "well_formed (Node sp k children) =
     (startLineNumber sp \<le> endLineNumber sp \<and> well_formed_list children)"
| "well_formed_list [] = True"
| "well_formed_list (n # ns) = (well_formed n \<and> well_formed_list ns)"

text \<open>
  The candidates of the declaration lookup, each with the name and the extent that are
  tested and the function-like node that is returned: in the order in which
  \<^verbatim>\<open>findFunctionByName\<close> is to be shown to consider them (\<open>search_order\<close>: functions,
  then class by class the methods and the arrow-function properties, then variables),
  and in the order of the specification (\<open>claimed_order\<close>: all methods of all classes
  before any property).
\<close>

type_synonym candidate = "string option \<times> span \<times> func_node"

definition function_candidate :: "func_node \<Rightarrow> candidate" where
  "function_candidate f = (fn_name f, fn_span f, f)"

definition property_candidates :: "named_decl \<Rightarrow> candidate list" where
  "property_candidates p =
     (case nd_initializer p of
        Some (FunctionLike g) \<Rightarrow>
          if fn_kind g = ArrowFunction then [(Some (nd_name p), nd_span p, g)] else []
      | _ \<Rightarrow> [])"

definition variable_candidates :: "named_decl \<Rightarrow> candidate list" where
  "variable_candidates vd =
     (case nd_initializer vd of
        Some (FunctionLike g) \<Rightarrow>
          if fn_kind g = ArrowFunction \<or> fn_kind g = FunctionExpression
          then [(Some (nd_name vd), nd_span vd, g)] else []
      | _ \<Rightarrow> [])"

definition class_candidates :: "class_decl \<Rightarrow> candidate list" where
  "class_candidates c =
     map function_candidate (cls_methods c) @ concat (map property_candidates (cls_properties c))"

definition search_order :: "source_file \<Rightarrow> candidate list" where
  "search_order sf =
     map function_candidate (sf_functions sf)
     @ concat (map class_candidates (sf_classes sf))
     @ concat (map variable_candidates (sf_variableDeclarations sf))"

definition claimed_order :: "source_file \<Rightarrow> candidate list" where
  "claimed_order sf =
     map function_candidate (sf_functions sf)
     @ concat (map (\<lambda>c. map function_candidate (cls_methods c)) (sf_classes sf))
     @ concat (map (\<lambda>c. concat (map property_candidates (cls_properties c))) (sf_classes sf))
     @ concat (map variable_candidates (sf_variableDeclarations sf))"

definition first_match :: "string \<Rightarrow> int option \<Rightarrow> candidate list \<Rightarrow> func_node option" where
  "first_match name anchorLine cs =
     map_option (\<lambda>(n, sp, g). g)
       (find (\<lambda>(n, sp, g). n = Some name \<and> line_accepts anchorLine sp) cs)"

text \<open>A Step whose code reference lies inside the 1-indexed line window \<open>s..e\<close>.\<close>

definition within_window :: "int \<Rightarrow> int \<Rightarrow> FlowNode \<Rightarrow> bool" where
  "within_window s e n =
     (case codeReference n of
        None \<Rightarrow> False
      | Some r \<Rightarrow> s \<le> start_line r + 1 \<and> end_line r + 1 \<le> e)"


text \<open>
  A result that consists of the boundary Steps of a top-level scope alone: the
  EntryPoint Step with the id \<open>u\<close>, the ExitPoint Step with the next id, and one
  DirectCall Flow from the one to the other.
\<close>

definition boundary_only :: "nat \<Rightarrow> parse_result \<Rightarrow> bool" where
  "boundary_only u r \<longleftrightarrow>
     map nid (nodes r) = [u, Suc u] \<and> map ntype (nodes r) = [EntryPoint, ExitPoint]
     \<and> edges r = [\<lparr>eid = Suc (Suc u), efrom = u, eto = Suc u, etype = DirectCall\<rparr>]
     \<and> entryNodeId r = Some u \<and> exitNodeId r = Some (Suc u)"
subsection \<open>Properties of the pool of invocations\<close>

text \<open>
  The declarations a walk over a subtree can start an invocation for: those of all its
  call expressions that have a recursion target, whether or not a window or a skipped
  subtree hides them.
\<close>

fun targets :: "ast \<Rightarrow> decl_ref list" and targets_list :: "ast list \<Rightarrow> decl_ref list" where
  "targets (Node sp k children) =
     (case k of
        CallExpression c symbol \<Rightarrow>
          (case recursion_target symbol of Some d \<Rightarrow> [d] | None \<Rightarrow> [])
      | OtherSyntax \<Rightarrow> []) @ targets_list children"
| "targets_list [] = []"
| "targets_list (n # ns) = targets n @ targets_list ns"

text \<open>
  References resolve: every edge of a result runs between Steps of the result, and its
  entry and exit ids, when present, are ids of Steps of the result. The same for the
  variables of a suspended invocation and for the state of a walk; \<open>callback_ready\<close>
  says that the invocation a pending callback belongs to is suspended at
  \<^verbatim>\<open>Promise.all\<close> and holds the call-site Step the callback closes over.
\<close>

definition ids :: "FlowNode list \<Rightarrow> nat set" where
  "ids ns = nid ` set ns"

definition edges_within :: "FlowNode list \<Rightarrow> FlowEdge list \<Rightarrow> bool" where
  "edges_within ns es = (\<forall>e \<in> set es. efrom e \<in> ids ns \<and> eto e \<in> ids ns)"

definition result_closed :: "parse_result \<Rightarrow> bool" where
  "result_closed r =
     (edges_within (nodes r) (edges r)
      \<and> (\<forall>i. entryNodeId r = Some i \<longrightarrow> i \<in> ids (nodes r))
      \<and> (\<forall>i. exitNodeId r = Some i \<longrightarrow> i \<in> ids (nodes r)))"

definition scope_closed :: "scope \<Rightarrow> bool" where
  "scope_closed sc =
     (edges_within (localNodes sc) (localEdges sc)
      \<and> currentScopeEntryNodeId sc \<in> ids (localNodes sc)
      \<and> currentScopeExitNodeId sc \<in> ids (localNodes sc)
      \<and> lastProcessedNodeIdInCurrentScope sc \<in> ids (localNodes sc))"

definition callback_ready :: "frame list \<Rightarrow> frame \<Rightarrow> bool" where
  "callback_ready fs f =
     (case fr_then f of
        None \<Rightarrow> True
      | Some (p, c) \<Rightarrow>
          fr_status f = Delivered
          \<or> (p < length fs
              \<and> (case fr_status (fs ! p) of
                    Awaiting sc \<Rightarrow> c \<in> ids (localNodes sc)
                  | _ \<Rightarrow> False)))"

definition frame_closed :: "frame \<Rightarrow> bool" where
  "frame_closed f =
     (case fr_status f of
        Awaiting sc \<Rightarrow> scope_closed sc
      | Resolved r \<Rightarrow> result_closed r
      | _ \<Rightarrow> True)"

definition frames_closed :: "frame list \<Rightarrow> bool" where
  "frames_closed fs = (\<forall>j < length fs. frame_closed (fs ! j) \<and> callback_ready fs (fs ! j))"

definition scan_closed :: "nat \<Rightarrow> scan \<Rightarrow> bool" where
  "scan_closed self s =
     (edges_within (sc_nodes s) (sc_edges s) \<and> sc_last s \<in> ids (sc_nodes s)
      \<and> (\<forall>f \<in> set (sc_spawned s).
            (fr_status f = Loading \<or> fr_status f = Resolved empty_result)
            \<and> (\<exists>c \<in> ids (sc_nodes s). fr_then f = Some (self, c))))"

text \<open>
  A measure of the work left: each invocation counts by what it may still do (a
  loading one may start up to \<open>M\<close> callees that end at once), and each key of
  \<open>U\<close> not yet visited counts for one loading invocation.
\<close>

definition weight :: "nat \<Rightarrow> frame \<Rightarrow> nat" where
  "weight M f =
     (case fr_status f of
        Loading \<Rightarrow> M + 3
      | Awaiting sc \<Rightarrow> 2
      | Resolved r \<Rightarrow> (if fr_then f = None then 0 else 1)
      | Delivered \<Rightarrow> 0)"

definition potential :: "string set \<Rightarrow> nat \<Rightarrow> string set \<Rightarrow> frame list \<Rightarrow> nat" where
  "potential U M visited fs = sum_list (map (weight M) fs) + card (U - visited) * (M + 3)"

text \<open>
  The source files a project can hand to an invocation; the roots a walk can start
  from in a file, the keys of all callees of a project, and a bound on the number of
  callees of a single scope.
\<close>

definition views :: "project \<Rightarrow> source_file set" where
  "views project = {sf. \<exists>p i. project p i = Some sf}"

definition scopes :: "source_file \<Rightarrow> ast list list" where
  "scopes sf = file_children sf # map (\<lambda>(n, sp, g). fn_children g) (search_order sf)"

definition target_key :: "decl_ref \<Rightarrow> string" where
  "target_key d = decl_file d @ ''::'' @ targetFunctionName d"

definition project_keys :: "project \<Rightarrow> string set" where
  "project_keys project =
     (\<Union>sf \<in> views project. \<Union>sc \<in> set (scopes sf). target_key ` set (targets_list sc))"

definition fan_out :: "project \<Rightarrow> nat" where
  "fan_out project =
     (\<Sum>sf \<in> views project. sum_list (map (\<lambda>sc. length (targets_list sc)) (scopes sf)))"

text \<open>
  Callbacks point to earlier invocations; only the first invocation has none, and an
  invocation without callback never counts as delivered.
\<close>

definition tree_ordered :: "frame list \<Rightarrow> bool" where
  "tree_ordered fs =
     (\<forall>j < length fs.
        case fr_then (fs ! j) of
          None \<Rightarrow> j = 0 \<and> fr_status (fs ! j) \<noteq> Delivered
        | Some (p, c) \<Rightarrow> p < j)"

text \<open>The pool right after the call of \<^verbatim>\<open>parseFunctionCalls\<close>, at its first suspension.\<close>

definition start :: "request \<Rightarrow> string set \<Rightarrow> nat \<Rightarrow> service" where
  "start q visited uuid =
     \<lparr>visitedFunctions = fst (enter q visited), next_uuid = uuid,
      frames = [\<lparr>fr_request = q, fr_then = None, fr_status = snd (enter q visited)\<rparr>]\<rparr>"

definition no_entry_point :: "FlowNode list \<Rightarrow> bool" where
  "no_entry_point ns = (\<forall>n \<in> set ns. ntype n \<noteq> EntryPoint)"

definition status_nodes :: "status \<Rightarrow> FlowNode list" where
  "status_nodes st =
     (case st of Awaiting sc \<Rightarrow> localNodes sc | Resolved r \<Rightarrow> nodes r | _ \<Rightarrow> [])"

definition status_entry :: "status \<Rightarrow> nat option" where
  "status_entry st =
     (case st of
        Awaiting sc \<Rightarrow> Some (currentScopeEntryNodeId sc)
      | Resolved r \<Rightarrow> entryNodeId r
      | _ \<Rightarrow> None)"

text \<open>
  Only the first Step of an invocation's Steps may be an EntryPoint, and none is when
  the invocation is a recursive one; the first Step is the one the entry id names.
\<close>

definition kinds_ok :: "request \<Rightarrow> status \<Rightarrow> bool" where
  "kinds_ok q st =
     (no_entry_point (tl (status_nodes st))
      \<and> (q_isRecursiveCall q \<longrightarrow> no_entry_point (status_nodes st))
      \<and> (\<forall>e. status_entry st = Some e \<longrightarrow>
            status_nodes st \<noteq> [] \<and> nid (hd (status_nodes st)) = e)
      \<and> (status_nodes st \<noteq> [] \<longrightarrow> status_entry st \<noteq> None))"

definition frames_kinds :: "frame list \<Rightarrow> bool" where
  "frames_kinds fs =
     (\<forall>j < length fs.
        kinds_ok (fr_request (fs ! j)) (fr_status (fs ! j))
        \<and> (0 < j \<longrightarrow> q_isRecursiveCall (fr_request (fs ! j))))"

text \<open>
  The entry Step of a function scope is recognised by its description (\<^verbatim>\<open>Entry: <label>\<close>
  at top level, \<^verbatim>\<open>Function: <label>\<close> in a recursive invocation); the file of its code
  reference and its label give the visited key of the scope.
\<close>

definition is_scope_entry :: "FlowNode \<Rightarrow> bool" where
  "is_scope_entry n \<longleftrightarrow>
     description n = Some (''Entry: '' @ label n) \<or> description n = Some (''Function: '' @ label n)"

definition entry_key :: "FlowNode \<Rightarrow> string" where
  "entry_key n =
     (case codeReference n of Some r \<Rightarrow> filePath r | None \<Rightarrow> []) @ ''::'' @ label n"

definition entry_keys :: "FlowNode list \<Rightarrow> string list" where
  "entry_keys ns = map entry_key (filter is_scope_entry ns)"

text \<open>
  The keys an invocation accounts for: its own while it waits for its file, afterwards
  those of the entry Steps it holds, none once its result is delivered.
\<close>

definition frame_keys :: "frame \<Rightarrow> string list" where
  "frame_keys f =
     (case fr_status f of
        Loading \<Rightarrow> [visitedKey (fr_request f)]
      | Awaiting sc \<Rightarrow> entry_keys (localNodes sc)
      | Resolved r \<Rightarrow> entry_keys (nodes r)
      | Delivered \<Rightarrow> [])"

definition key_count :: "string \<Rightarrow> frame list \<Rightarrow> nat" where
  "key_count k fs = sum_list (map (\<lambda>f. count_list (frame_keys f) k) fs)"











section \<open>Concrete inputs\<close>

text \<open>The scheduler that always resumes the first candidate.\<close>

definition fifo :: "nat \<Rightarrow> nat" where
  "fifo t = 0"

definition at_lines :: "int \<Rightarrow> int \<Rightarrow> int \<Rightarrow> int \<Rightarrow> span" where
  "at_lines l1 c1 l2 c2 =
     \<lparr>startLineNumber = l1, startColumn = c1, endLineNumber = l2, endColumn = c2\<rparr>"

text \<open>
  The file \<^verbatim>\<open>a.ts\<close>:
  \<^verbatim>\<open>function main(){ helper(); }\<close> on line 1 and \<^verbatim>\<open>function helper(){}\<close> on line 2.
\<close>

definition helper_decl :: decl_ref where
  "helper_decl =
     \<lparr>decl_kind = FunctionDeclaration, decl_file = ''a.ts'', decl_name = Some ''helper'',
      decl_parent_var = None, decl_parent_prop = None, decl_line = 2\<rparr>"

definition main_fn :: func_node where
  "main_fn =
     \<lparr>fn_kind = FunctionDeclaration, fn_name = Some ''main'', fn_parent_name = None,
      fn_span = at_lines 1 1 1 29, fn_last_token = Some (at_lines 1 28 1 29, None),
      fn_children =
        [Node (at_lines 1 10 1 14) OtherSyntax [],
         Node (at_lines 1 16 1 29) OtherSyntax
           [Node (at_lines 1 18 1 27) OtherSyntax
              [Node (at_lines 1 18 1 26)
                 (CallExpression (Identifier ''helper'') (Some [helper_decl]))
                 [Node (at_lines 1 18 1 24) OtherSyntax []]]]]\<rparr>"

definition helper_fn :: func_node where
  "helper_fn =
     \<lparr>fn_kind = FunctionDeclaration, fn_name = Some ''helper'', fn_parent_name = None,
      fn_span = at_lines 2 1 2 20, fn_last_token = Some (at_lines 2 19 2 20, None),
      fn_children =
        [Node (at_lines 2 10 2 16) OtherSyntax [],
         Node (at_lines 2 18 2 20) OtherSyntax []]\<rparr>"

definition a_ts :: source_file where
  "a_ts =
     \<lparr>sf_path = ''a.ts'', sf_functions = [main_fn, helper_fn], sf_classes = [], sf_variableDeclarations = [],
      file_children =
        [Node (fn_span main_fn) OtherSyntax (fn_children main_fn),
         Node (fn_span helper_fn) OtherSyntax (fn_children helper_fn)],
      file_span = at_lines 1 1 2 20\<rparr>"

definition a_project :: project where
  "a_project p i = (if p = ''a.ts'' then Some a_ts else None)"

definition scenario_start :: service where
  "scenario_start =
     \<lparr>visitedFunctions = {''a.ts::main''}, next_uuid = 0,
      frames =
        [\<lparr>fr_request =
            \<lparr>q_filePath = ''a.ts'', q_functionName = Some ''main'', q_startLine = None,
             q_endLine = None, q_isRecursiveCall = False, q_callerNodeId = None\<rparr>,
          fr_then = None, fr_status = Loading\<rparr>]\<rparr>"

definition scenario_result :: parse_result where
  "scenario_result =
     \<lparr>nodes =
        [\<lparr>nid = 0, label = ''main'', ntype = EntryPoint,
          codeReference =
            Some \<lparr>filePath = ''a.ts'', start_line = 0, start_character = 0, end_line = 0,
                  end_character = 28, ref_identifier = Some ''main''\<rparr>,
          description = Some ''Entry: main''\<rparr>,
         \<lparr>nid = 1, label = ''Exit main'', ntype = ExitPoint,
          codeReference =
            Some \<lparr>filePath = ''a.ts'', start_line = 0, start_character = 27, end_line = 0,
                  end_character = 28, ref_identifier = None\<rparr>,
          description = Some ''Exit of main''\<rparr>,
         \<lparr>nid = 2, label = ''Call: helper'', ntype = Function,
          codeReference =
            Some \<lparr>filePath = ''a.ts'', start_line = 0, start_character = 17, end_line = 0,
                  end_character = 25, ref_identifier = None\<rparr>,
          description = Some ''Invocation of helper''\<rparr>,
         \<lparr>nid = 4, label = ''helper'', ntype = Function,
          codeReference =
            Some \<lparr>filePath = ''a.ts'', start_line = 1, start_character = 0, end_line = 1,
                  end_character = 19, ref_identifier = Some ''helper''\<rparr>,
          description = Some ''Function: helper''\<rparr>,
         \<lparr>nid = 5, label = ''Exit helper'', ntype = ExitPoint,
          codeReference =
            Some \<lparr>filePath = ''a.ts'', start_line = 1, start_character = 18, end_line = 1,
                  end_character = 19, ref_identifier = None\<rparr>,
          description = Some ''Exit of helper''\<rparr>],
      edges =
        [\<lparr>eid = 3, efrom = 0, eto = 2, etype = DirectCall\<rparr>,
         \<lparr>eid = 6, efrom = 4, eto = 5, etype = DirectCall\<rparr>,
         \<lparr>eid = 7, efrom = 2, eto = 4, etype = DirectCall\<rparr>,
         \<lparr>eid = 8, efrom = 5, eto = 2, etype = DirectCall\<rparr>],
      entryNodeId = Some 0, exitNodeId = Some 1\<rparr>"

text \<open>
  The file \<^verbatim>\<open>w.ts\<close>: a statement \<^verbatim>\<open>helper();\<close> on line 6, and on lines 20 to 25 the
  declaration of \<^verbatim>\<open>helper\<close>, whose body calls \<^verbatim>\<open>foo()\<close> on line 22; \<^verbatim>\<open>foo\<close> has no
  symbol.
\<close>

definition w_helper_decl :: decl_ref where
  "w_helper_decl =
     \<lparr>decl_kind = FunctionDeclaration, decl_file = ''w.ts'', decl_name = Some ''helper'',
      decl_parent_var = None, decl_parent_prop = None, decl_line = 20\<rparr>"

definition w_helper_fn :: func_node where
  "w_helper_fn =
     \<lparr>fn_kind = FunctionDeclaration, fn_name = Some ''helper'', fn_parent_name = None,
      fn_span = at_lines 20 1 25 2, fn_last_token = Some (at_lines 25 1 25 2, None),
      fn_children =
        [Node (at_lines 20 10 20 16) OtherSyntax [],
         Node (at_lines 20 19 25 2) OtherSyntax
           [Node (at_lines 22 3 22 9) OtherSyntax
              [Node (at_lines 22 3 22 8) (CallExpression (Identifier ''foo'') None)
                 [Node (at_lines 22 3 22 6) OtherSyntax []]]]]\<rparr>"

definition w_ts :: source_file where
  "w_ts =
     \<lparr>sf_path = ''w.ts'', sf_functions = [w_helper_fn], sf_classes = [], sf_variableDeclarations = [],
      file_children =
        [Node (at_lines 6 1 6 10) OtherSyntax
           [Node (at_lines 6 1 6 9) (CallExpression (Identifier ''helper'') (Some [w_helper_decl]))
              [Node (at_lines 6 1 6 7) OtherSyntax []]],
         Node (fn_span w_helper_fn) OtherSyntax (fn_children w_helper_fn)],
      file_span = at_lines 6 1 25 2\<rparr>"

definition w_project :: project where
  "w_project p i = (if p = ''w.ts'' then Some w_ts else None)"

definition foo_call_step :: FlowNode where
  "foo_call_step =
     \<lparr>nid = 6, label = ''Call: foo'', ntype = Function,
      codeReference =
        Some \<lparr>filePath = ''w.ts'', start_line = 21, start_character = 2, end_line = 21,
              end_character = 7, ref_identifier = None\<rparr>,
      description = Some ''Invocation of foo''\<rparr>"

text \<open>
  A file with two classes: the first has the property \<^verbatim>\<open>foo = () => {}\<close> (line 2), the
  second the method \<^verbatim>\<open>foo() {}\<close> (line 5).
\<close>

definition arrow_foo :: func_node where
  "arrow_foo =
     \<lparr>fn_kind = ArrowFunction, fn_name = None, fn_parent_name = Some ''foo'',
      fn_span = at_lines 2 9 2 17, fn_last_token = Some (at_lines 2 16 2 17, None), fn_children = []\<rparr>"

definition method_foo :: func_node where
  "method_foo =
     \<lparr>fn_kind = MethodDeclaration, fn_name = Some ''foo'', fn_parent_name = None,
      fn_span = at_lines 5 3 5 11, fn_last_token = Some (at_lines 5 10 5 11, None), fn_children = []\<rparr>"

definition two_classes :: source_file where
  "two_classes =
     \<lparr>sf_path = ''t.ts'', sf_functions = [],
      sf_classes =
        [\<lparr>cls_methods = [],
          cls_properties =
            [\<lparr>nd_name = ''foo'', nd_span = at_lines 2 3 2 18,
              nd_initializer = Some (FunctionLike arrow_foo)\<rparr>]\<rparr>,
         \<lparr>cls_methods = [method_foo], cls_properties = []\<rparr>],
      sf_variableDeclarations = [], file_children = [], file_span = at_lines 1 1 6 2\<rparr>"







text \<open>
  The file \<^verbatim>\<open>p.ts\<close>: \<^verbatim>\<open>function f(x = g()) { return x; }\<close> on line 1. The call of
  \<^verbatim>\<open>g\<close>, which has no symbol, is the default value of the parameter; \<open>default_body\<close>
  holds the children of the body block.
\<close>

definition default_body :: "ast list" where
  "default_body = [Node (at_lines 1 23 1 32) OtherSyntax [Node (at_lines 1 30 1 31) OtherSyntax []]]"

definition default_fn :: func_node where
  "default_fn =
     \<lparr>fn_kind = FunctionDeclaration, fn_name = Some ''f'', fn_parent_name = None,
      fn_span = at_lines 1 1 1 34, fn_last_token = Some (at_lines 1 33 1 34, None),
      fn_children =
        [Node (at_lines 1 10 1 11) OtherSyntax [],
         Node (at_lines 1 12 1 19) OtherSyntax
           [Node (at_lines 1 12 1 13) OtherSyntax [],
            Node (at_lines 1 16 1 19) (CallExpression (Identifier ''g'') None)
              [Node (at_lines 1 16 1 17) OtherSyntax []]],
         Node (at_lines 1 21 1 34) OtherSyntax default_body]\<rparr>"

definition p_ts :: source_file where
  "p_ts =
     \<lparr>sf_path = ''p.ts'', sf_functions = [default_fn], sf_classes = [],
      sf_variableDeclarations = [],
      file_children = [Node (fn_span default_fn) OtherSyntax (fn_children default_fn)],
      file_span = at_lines 1 1 1 34\<rparr>"

definition p_project :: project where
  "p_project p i = (if p = ''p.ts'' then Some p_ts else None)"










section \<open>Basic facts\<close>

lemma spawn_fields [simp]:
  "sc_nodes (spawn self d c s) = sc_nodes s"
  "sc_edges (spawn self d c s) = sc_edges s"
  "sc_uuid (spawn self d c s) = sc_uuid s"
  "sc_last (spawn self d c s) = c"
  by (simp_all add: spawn_def Let_def split: prod.splits)

lemma add_call_site_fields [simp]:
  "sc_visited (add_call_site path sp c s) = sc_visited s"
  "sc_spawned (add_call_site path sp c s) = sc_spawned s"
  "sc_last (add_call_site path sp c s) = sc_last s"
  "sc_uuid (add_call_site path sp c s) = Suc (Suc (sc_uuid s))"
  by (simp_all add: add_call_site_def)

lemma visit_without_calls:
  "\<not> has_call n \<Longrightarrow> visit self path sl el n s = s"
  "\<not> has_call_list ns \<Longrightarrow> visit_all self path sl el ns s = s"
  by (induction n and ns arbitrary: s and s rule: has_call_has_call_list.induct)
     (auto split: window.splits node_kind.splits)

lemma window_never_inside:
  "e < s \<Longrightarrow> startLineNumber sp \<le> endLineNumber sp \<Longrightarrow> window_test (Some s) (Some e) sp \<noteq> Inside"
  by (auto simp: window_test_def)

lemma visit_inverted_window:
  "e < s \<Longrightarrow> well_formed n \<Longrightarrow> visit self path (Some s) (Some e) n sc = sc"
  "e < s \<Longrightarrow> well_formed_list ns \<Longrightarrow> visit_all self path (Some s) (Some e) ns sc = sc"
  by (induction n and ns arbitrary: sc and sc rule: well_formed_well_formed_list.induct)
     (auto split: window.splits dest: window_never_inside)

lemma run_halt: "runnable sv = [] \<Longrightarrow> run project sched t sv = Some sv"
  by (subst run.simps) simp

lemma run_single:
  "runnable sv = [i] \<Longrightarrow> run project sched t sv = run project sched (Suc t) (step project i sv)"
  by (subst run.simps) simp

lemma runnable_one:
  "runnable \<lparr>visitedFunctions = V, next_uuid = u, frames = [f]\<rparr> =
     (if enabled \<lparr>visitedFunctions = V, next_uuid = u, frames = [f]\<rparr> 0 then [0] else [])"
  by (simp add: runnable_def)

text \<open>A lone invocation that returns right after its file is loaded.\<close>

lemma lone_return:
  assumes "resolve_scope (project (q_filePath q) 0) q u = Return r u'"
  shows "run project sched t
           \<lparr>visitedFunctions = V, next_uuid = u,
            frames = [\<lparr>fr_request = q, fr_then = None, fr_status = Loading\<rparr>]\<rparr>
         = Some \<lparr>visitedFunctions = V, next_uuid = u',
            frames = [\<lparr>fr_request = q, fr_then = None, fr_status = Resolved r\<rparr>]\<rparr>"
proof -
  let ?s0 = "\<lparr>visitedFunctions = V, next_uuid = u,
            frames = [\<lparr>fr_request = q, fr_then = None, fr_status = Loading\<rparr>]\<rparr>"
  let ?s1 = "\<lparr>visitedFunctions = V, next_uuid = u',
            frames = [\<lparr>fr_request = q, fr_then = None, fr_status = Resolved r\<rparr>]\<rparr>"
  have r0: "runnable ?s0 = [0]" by (simp add: runnable_one enabled_def)
  have st: "step project 0 ?s0 = ?s1"
    using assms by (simp add: step_def resume_def set_status_def)
  have r1: "runnable ?s1 = []" by (simp add: runnable_one enabled_def)
  show ?thesis
    by (simp add: run_single [OF r0] st run_halt [OF r1])
qed

text \<open>A lone invocation whose walk starts no callee.\<close>

lemma lone_scope:
  assumes "resolve_scope (project (q_filePath q) 0) q u = Proceed root ns (Some en) (Some ex) u'"
    and "visit_all 0 (source_path (project (q_filePath q) 0)) (q_startLine q) (q_endLine q) root
           \<lparr>sc_visited = V, sc_uuid = u', sc_nodes = ns, sc_edges = [], sc_last = en,
            sc_spawned = []\<rparr>
         = \<lparr>sc_visited = V, sc_uuid = u', sc_nodes = ns, sc_edges = [], sc_last = en,
            sc_spawned = []\<rparr>"
  shows "run project sched t
           \<lparr>visitedFunctions = V, next_uuid = u,
            frames = [\<lparr>fr_request = q, fr_then = None, fr_status = Loading\<rparr>]\<rparr>
         = Some \<lparr>visitedFunctions = V,
              next_uuid = snd (finish \<lparr>localNodes = ns, localEdges = [],
                 currentScopeEntryNodeId = en, currentScopeExitNodeId = ex,
                 lastProcessedNodeIdInCurrentScope = en\<rparr> u'),
              frames = [\<lparr>fr_request = q, fr_then = None,
                fr_status = Resolved (fst (finish \<lparr>localNodes = ns, localEdges = [],
                 currentScopeEntryNodeId = en, currentScopeExitNodeId = ex,
                 lastProcessedNodeIdInCurrentScope = en\<rparr> u'))\<rparr>]\<rparr>"
proof -
  let ?sc = "\<lparr>localNodes = ns, localEdges = [],
                 currentScopeEntryNodeId = en, currentScopeExitNodeId = ex,
                 lastProcessedNodeIdInCurrentScope = en\<rparr>"
  let ?s0 = "\<lparr>visitedFunctions = V, next_uuid = u,
            frames = [\<lparr>fr_request = q, fr_then = None, fr_status = Loading\<rparr>]\<rparr>"
  let ?s1 = "\<lparr>visitedFunctions = V, next_uuid = u',
            frames = [\<lparr>fr_request = q, fr_then = None, fr_status = Awaiting ?sc\<rparr>]\<rparr>"
  let ?s2 = "\<lparr>visitedFunctions = V, next_uuid = snd (finish ?sc u'),
            frames = [\<lparr>fr_request = q, fr_then = None, fr_status = Resolved (fst (finish ?sc u'))\<rparr>]\<rparr>"
  have r0: "runnable ?s0 = [0]" by (simp add: runnable_one enabled_def)
  have st0: "step project 0 ?s0 = ?s1"
    using assms by (simp add: step_def resume_def set_status_def)
  have r1: "runnable ?s1 = [0]" by (simp add: runnable_one enabled_def children_settled_def)
  have st1: "step project 0 ?s1 = ?s2"
    by (simp add: step_def complete_def set_status_def split: prod.splits)
  have r2: "runnable ?s2 = []" by (simp add: runnable_one enabled_def)
  show ?thesis
    by (simp only: run_single [OF r0] st0 run_single [OF r1] st1 run_halt [OF r2])
qed

lemma first_match_Nil [simp]: "first_match n l [] = None"
  by (simp add: first_match_def)

lemma first_match_append:
  "first_match n l (xs @ ys) =
     (case first_match n l xs of Some g \<Rightarrow> Some g | None \<Rightarrow> first_match n l ys)"
  by (induction xs) (auto simp: first_match_def)

lemma first_match_functions:
  "first_match n l (map function_candidate fs) =
     find (\<lambda>f. fn_name f = Some n \<and> line_accepts l (fn_span f)) fs"
  by (induction fs) (auto simp: first_match_def function_candidate_def)

lemma scan_properties_found [simp]:
  "scan_properties n l ps (Some g) = Some g"
  by (induction ps) auto

lemma scan_properties_search:
  "scan_properties n l ps None = first_match n l (concat (map property_candidates ps))"
proof (induction ps)
  case Nil
  show ?case by simp
next
  case (Cons p ps)
  show ?case
    using Cons.IH
    by (auto simp: first_match_append property_candidates_def isArrowFunction_def
          the_function_def first_match_def
        split: option.splits initializer.splits)
qed

lemma scan_classes_found [simp]:
  "scan_classes n l cs (Some g) = Some g"
  by (induction cs) auto

lemma scan_classes_search:
  "scan_classes n l cs None = first_match n l (concat (map class_candidates cs))"
proof (induction cs)
  case Nil
  show ?case by simp
next
  case (Cons c cs)
  show ?case
    using Cons.IH
    by (auto simp: first_match_append class_candidates_def first_match_functions
          scan_properties_search split: option.splits)
qed

lemma scan_variables_found [simp]:
  "scan_variables n l vs (Some g) = Some g"
  by (induction vs) auto

lemma scan_variables_search:
  "scan_variables n l vs None = first_match n l (concat (map variable_candidates vs))"
proof (induction vs)
  case Nil
  show ?case by simp
next
  case (Cons v vs)
  show ?case
    using Cons.IH
    by (auto simp: first_match_append variable_candidates_def isArrowFunction_def
          isFunctionExpression_def the_function_def first_match_def
        split: option.splits initializer.splits)
qed

lemma visit_nodes_within_window:
  "\<exists>added. sc_nodes (visit self path sl el n sc) = sc_nodes sc @ added
      \<and> (sl = Some s \<longrightarrow> el = Some e \<longrightarrow>
            list_all (\<lambda>n. ntype n = Function \<and> within_window s e n) added)"
  "\<exists>added. sc_nodes (visit_all self path sl el ns sc) = sc_nodes sc @ added
      \<and> (sl = Some s \<longrightarrow> el = Some e \<longrightarrow>
            list_all (\<lambda>n. ntype n = Function \<and> within_window s e n) added)"
proof (induction self path sl el n sc and self path sl el ns sc rule: visit_visit_all.induct)
  case (1 self path startLine endLine sp k children s')
  show ?case
  proof (cases "window_test startLine endLine sp")
    case Disjoint
    then show ?thesis by simp
  next
    case Overlapping
    then show ?thesis using "1.IH"(3) by simp
  next
    case Inside
    show ?thesis
    proof (cases k)
      case OtherSyntax
      then show ?thesis using Inside "1.IH"(2) by simp
    next
      case (CallExpression c symbol)
      have win: "startLine = Some s \<Longrightarrow> endLine = Some e \<Longrightarrow>
          s \<le> startLineNumber sp \<and> endLineNumber sp \<le> e"
        using Inside by (auto simp: window_test_def split: if_splits)
      show ?thesis
      proof (cases "recursion_target symbol")
        case (Some d)
        then show ?thesis
          using Inside CallExpression win
          by (auto simp: add_call_site_def within_window_def createCodeReference_def)
      next
        case None
        from "1.IH"(1) [OF Inside CallExpression None]
        obtain added where
          a: "sc_nodes (visit_all self path startLine endLine children
                 ((add_call_site path sp c s')\<lparr>sc_last := sc_uuid s'\<rparr>))
              = sc_nodes ((add_call_site path sp c s')\<lparr>sc_last := sc_uuid s'\<rparr>) @ added"
          and b: "startLine = Some s \<longrightarrow> endLine = Some e \<longrightarrow>
                list_all (\<lambda>n. ntype n = Function \<and> within_window s e n) added"
          by blast
        show ?thesis
          using Inside CallExpression None a b win
          by (auto simp: add_call_site_def within_window_def createCodeReference_def)
      qed
    qed
  qed
next
  case (2 self path startLine endLine s')
  show ?case by simp
next
  case (3 self path startLine endLine n ns s')
  from "3.IH"(1) obtain a1 where
    a1: "sc_nodes (visit self path startLine endLine n s') = sc_nodes s' @ a1"
      "startLine = Some s \<longrightarrow> endLine = Some e \<longrightarrow>
         list_all (\<lambda>n. ntype n = Function \<and> within_window s e n) a1"
    by blast
  from "3.IH"(2) obtain a2 where
    a2: "sc_nodes (visit_all self path startLine endLine ns (visit self path startLine endLine n s'))
          = sc_nodes (visit self path startLine endLine n s') @ a2"
      "startLine = Some s \<longrightarrow> endLine = Some e \<longrightarrow>
         list_all (\<lambda>n. ntype n = Function \<and> within_window s e n) a2"
    by blast
  show ?case using a1 a2 by auto
qed

lemma visit_disjoint:
  "startLineNumber sp \<le> endLineNumber sp \<Longrightarrow> endLineNumber sp < s \<or> e < startLineNumber sp \<Longrightarrow>
     visit self path (Some s) (Some e) (Node sp k children) sc = sc"
  by (auto simp: window_test_def)

section \<open>The pool of invocations\<close>

subsection \<open>Status updates\<close>

lemma length_set_status [simp]: "length (set_status i st fs) = length fs"
  by (simp add: set_status_def)

lemma nth_set_status:
  "j < length fs \<Longrightarrow>
     set_status i st fs ! j = (if j = i then (fs ! i)\<lparr>fr_status := st\<rparr> else fs ! j)"
  by (simp add: set_status_def)

lemma runnable_iff: "i \<in> set (runnable sv) \<longleftrightarrow> i < length (frames sv) \<and> enabled sv i"
  by (auto simp: runnable_def)

lemma pick_runnable:
  "runnable sv \<noteq> [] \<Longrightarrow> runnable sv ! (k mod length (runnable sv)) \<in> set (runnable sv)"
  by simp

subsection \<open>Reasoning about the event loop\<close>

lemma run_invariant:
  assumes step: "\<And>sv i. P sv \<Longrightarrow> i \<in> set (runnable sv) \<Longrightarrow> P (step project i sv)"
    and run: "run project sched t sv = Some sv'"
    and init: "P sv"
  shows "P sv' \<and> runnable sv' = []"
proof -
  let ?Q = "\<lambda>pr (sc :: nat \<Rightarrow> nat) (k :: nat) s s'. pr = project \<longrightarrow> P s \<longrightarrow> P s' \<and> runnable s' = []"
  have "?Q project sched t sv sv'"
  proof (rule run.raw_induct [where P = ?Q, OF _ run])
    fix run' pr sc k s s'
    assume IH: "\<And>pr sc k s s'. run' pr sc k s = Some s' \<Longrightarrow> ?Q pr sc k s s'"
      and unfold: "(if runnable s = [] then Some s
            else run' pr sc (Suc k) (step pr (runnable s ! (sc k mod length (runnable s))) s))
          = Some s'"
    show "?Q pr sc k s s'"
    proof (intro impI)
      assume eq: "pr = project" and P: "P s"
      show "P s' \<and> runnable s' = []"
      proof (cases "runnable s = []")
        case True
        with unfold P show ?thesis by simp
      next
        case False
        let ?i = "runnable s ! (sc k mod length (runnable s))"
        from False have "?i \<in> set (runnable s)" by (rule pick_runnable)
        with P have "P (step project ?i s)" by (rule step)
        moreover from False unfold have "run' pr sc (Suc k) (step pr ?i s) = Some s'"
          by simp
        ultimately show ?thesis using IH eq by blast
      qed
    qed
  qed
  with init show ?thesis by blast
qed

lemma run_terminates:
  assumes "\<And>sv i. i \<in> set (runnable sv) \<Longrightarrow> m (step project i sv) < (m sv :: nat)"
  shows "\<exists>sv'. run project sched t sv = Some sv'"
proof (induction "m sv" arbitrary: sv t rule: less_induct)
  case less
  show ?case
  proof (cases "runnable sv = []")
    case True
    then show ?thesis by (subst run.simps) simp
  next
    case False
    let ?i = "runnable sv ! (sched t mod length (runnable sv))"
    from False have "?i \<in> set (runnable sv)" by (rule pick_runnable)
    then have "m (step project ?i sv) < m sv" by (rule assms)
    from less [OF this, of "Suc t"] obtain sv' where
      "run project sched (Suc t) (step project ?i sv) = Some sv'" by blast
    with False show ?thesis by (subst run.simps) simp
  qed
qed

subsection \<open>A rule for the walk\<close>

lemma visit_rule_aux:
  "(\<And>s sp c ds. P s ds \<Longrightarrow> P ((add_call_site path sp c s)\<lparr>sc_last := sc_uuid s\<rparr>) ds) \<Longrightarrow>
   (\<And>s sp c d ds. P s ds \<Longrightarrow> d \<in> D \<Longrightarrow>
      P (spawn self d (sc_uuid s) (add_call_site path sp c s)) (ds @ [d])) \<Longrightarrow>
   P s ds \<Longrightarrow> set (targets n) \<subseteq> D \<Longrightarrow>
   \<exists>ds'. P (visit self path sl el n s) (ds @ ds') \<and> length ds' \<le> length (targets n)"
  "(\<And>s sp c ds. P s ds \<Longrightarrow> P ((add_call_site path sp c s)\<lparr>sc_last := sc_uuid s\<rparr>) ds) \<Longrightarrow>
   (\<And>s sp c d ds. P s ds \<Longrightarrow> d \<in> D \<Longrightarrow>
      P (spawn self d (sc_uuid s) (add_call_site path sp c s)) (ds @ [d])) \<Longrightarrow>
   P s ds \<Longrightarrow> set (targets_list ns) \<subseteq> D \<Longrightarrow>
   \<exists>ds'. P (visit_all self path sl el ns s) (ds @ ds') \<and> length ds' \<le> length (targets_list ns)"
proof (induction self path sl el n s and self path sl el ns s arbitrary: ds and ds
       rule: visit_visit_all.induct)
  case (1 self path startLine endLine sp k children s)
  note call = "1.prems"(1) and spawn = "1.prems"(2) and P = "1.prems"(3) and D = "1.prems"(4)
  from D have Dc: "set (targets_list children) \<subseteq> D" by simp
  show ?case
  proof (cases "window_test startLine endLine sp")
    case Disjoint
    with P show ?thesis by (intro exI [of _ "[]"]) simp
  next
    case Overlapping
    from "1.IH"(3) [OF Overlapping call spawn P Dc] Overlapping show ?thesis
      by (auto split: node_kind.splits option.splits)
  next
    case Inside
    show ?thesis
    proof (cases k)
      case OtherSyntax
      from "1.IH"(2) [OF Inside OtherSyntax call spawn P Dc] Inside OtherSyntax show ?thesis by auto
    next
      case (CallExpression c symbol)
      show ?thesis
      proof (cases "recursion_target symbol")
        case (Some d)
        have eq: "visit self path startLine endLine (Node sp k children) s
            = spawn self d (sc_uuid s) (add_call_site path sp c s)"
          using Inside CallExpression Some by simp
        have d: "d \<in> D"
          using D CallExpression Some by simp
        have "1 \<le> length (targets (Node sp k children))"
          using CallExpression Some by simp
        then show ?thesis
          unfolding eq using spawn [OF P d, of sp c]
          by (intro exI [of _ "[d]"]) simp
      next
        case None
        from "1.IH"(1) [OF Inside CallExpression None call spawn call [OF P] Dc]
          Inside CallExpression None show ?thesis by auto
      qed
    qed
  qed
next
  case (2 self path startLine endLine s)
  then show ?case by (intro exI [of _ "[]"]) simp
next
  case (3 self path startLine endLine n ns s)
  note call = "3.prems"(1) and spawn = "3.prems"(2) and P = "3.prems"(3) and D = "3.prems"(4)
  from D have D1: "set (targets n) \<subseteq> D" and D2: "set (targets_list ns) \<subseteq> D" by simp_all
  from "3.IH"(1) [OF call spawn P D1] obtain d1 where
    d1: "P (visit self path startLine endLine n s) (ds @ d1)"
      "length d1 \<le> length (targets n)" by blast
  from "3.IH"(2) [OF call spawn d1(1) D2] obtain d2 where
    d2: "P (visit_all self path startLine endLine ns (visit self path startLine endLine n s))
           ((ds @ d1) @ d2)"
      "length d2 \<le> length (targets_list ns)" by blast
  show ?case
    using d1 d2 by (intro exI [of _ "d1 @ d2"]) auto
qed

lemma visit_all_rule:
  assumes "P s ds"
    and "\<And>s sp c ds. P s ds \<Longrightarrow> P ((add_call_site path sp c s)\<lparr>sc_last := sc_uuid s\<rparr>) ds"
    and "\<And>s sp c d ds. P s ds \<Longrightarrow> d \<in> set (targets_list ns) \<Longrightarrow>
           P (spawn self d (sc_uuid s) (add_call_site path sp c s)) (ds @ [d])"
  obtains ds' where "P (visit_all self path sl el ns s) (ds @ ds')"
    and "length ds' \<le> length (targets_list ns)"
  using visit_rule_aux(2) [where P = P and path = path and self = self and s = s and ds = ds
      and D = "set (targets_list ns)" and ns = ns and sl = sl and el = el] assms
  by blast

subsection \<open>The outcomes of scope resolution\<close>

lemma resolve_scope_cases [case_names Empty Unresolved Found Block File]:
  obtains
    (Empty) "resolve_scope loaded q u = Return empty_result u"
  | (Unresolved) sf name caller where "loaded = Some sf"
      and "q_functionName q = Some name" and "name \<noteq> []"
      and "findFunctionByName sf name (q_startLine q) = None"
      and "q_callerNodeId q = Some caller"
      and "resolve_scope loaded q u =
            Return \<lparr>nodes = [unresolved_note q name u], edges = [], entryNodeId = Some u,
                    exitNodeId = Some u\<rparr> (Suc u)"
  | (Found) sf name g where "loaded = Some sf"
      and "q_functionName q = Some name" and "name \<noteq> []"
      and "findFunctionByName sf name (q_startLine q) = Some g"
      and "resolve_scope loaded q u =
            Proceed (fn_children g) (function_boundary sf q name g u) (Some u) (Some (Suc u))
              (Suc (Suc u))"
  | (Block) sf where "loaded = Some sf" and "\<not> truthy (q_functionName q)"
      and "\<not> q_isRecursiveCall q"
      and "resolve_scope loaded q u =
            Proceed (file_children sf) (block_boundary q u) (Some u) (Some (Suc u)) (Suc (Suc u))"
  | (File) sf where "loaded = Some sf" and "\<not> truthy (q_functionName q)"
      and "\<not> q_isRecursiveCall q"
      and "resolve_scope loaded q u =
            Proceed (file_children sf) (file_boundary q sf u) (Some u) (Some (Suc u)) (Suc (Suc u))"
proof (cases loaded)
  case None
  then have "resolve_scope loaded q u = Return empty_result u"
    by (simp add: resolve_scope_def)
  then show ?thesis by (rule Empty)
next
  case (Some sf)
  show ?thesis
  proof (cases "truthy (q_functionName q)")
    case True
    then obtain name where name: "q_functionName q = Some name" "name \<noteq> []"
      by (auto simp: truthy_def split: option.splits)
    show ?thesis
    proof (cases "findFunctionByName sf name (q_startLine q)")
      case (Some g)
      with \<open>loaded = Some sf\<close> True name show ?thesis
        by (intro Found [of sf name g]) (simp_all add: resolve_scope_def)
    next
      case None
      show ?thesis
      proof (cases "q_callerNodeId q")
        case (Some caller)
        with \<open>loaded = Some sf\<close> True name None show ?thesis
          by (intro Unresolved [of sf name caller]) (simp_all add: resolve_scope_def)
      next
        case no_caller: None
        with \<open>loaded = Some sf\<close> True name None show ?thesis
          by (intro Empty) (simp add: resolve_scope_def)
      qed
    qed
  next
    case False
    show ?thesis
    proof (cases "q_isRecursiveCall q")
      case True
      with Some False show ?thesis by (intro Empty) (simp add: resolve_scope_def)
    next
      case not_rec: False
      show ?thesis
      proof (cases "q_startLine q \<noteq> None \<and> q_endLine q \<noteq> None")
        case True
        with Some False not_rec show ?thesis
          by (intro Block [of sf]) (simp_all add: resolve_scope_def)
      next
        case no_range: False
        with Some False not_rec show ?thesis
          by (intro File [of sf]) (auto simp add: resolve_scope_def)
      qed
    qed
  qed
qed

lemma resume_Return:
  "resolve_scope (project (q_filePath (fr_request (frames sv ! i))) i) (fr_request (frames sv ! i)) (next_uuid sv) = Return r u \<Longrightarrow>
     resume project i sv = sv\<lparr>next_uuid := u, frames := set_status i (Resolved r) (frames sv)\<rparr>"
  by (simp add: resume_def)

lemma resume_Proceed:
  "resolve_scope (project (q_filePath (fr_request (frames sv ! i))) i) (fr_request (frames sv ! i)) (next_uuid sv)
     = Proceed root ns (Some en) (Some ex) u \<Longrightarrow>
   s = visit_all i (source_path (project (q_filePath (fr_request (frames sv ! i))) i)) (q_startLine (fr_request (frames sv ! i)))
         (q_endLine (fr_request (frames sv ! i))) root
         \<lparr>sc_visited = visitedFunctions sv, sc_uuid = u, sc_nodes = ns,
          sc_edges = [], sc_last = en, sc_spawned = []\<rparr> \<Longrightarrow>
   resume project i sv =
     \<lparr>visitedFunctions = sc_visited s, next_uuid = sc_uuid s,
      frames =
        set_status i
          (Awaiting \<lparr>localNodes = sc_nodes s, localEdges = sc_edges s,
                     currentScopeEntryNodeId = en, currentScopeExitNodeId = ex,
                     lastProcessedNodeIdInCurrentScope = sc_last s\<rparr>)
          (frames sv) @ sc_spawned s\<rparr>"
  by (simp add: resume_def Let_def)

subsection \<open>Edges stay within the Steps\<close>

lemma ids_simps [simp]:
  "ids [] = {}" "ids (n # ns) = insert (nid n) (ids ns)" "ids (xs @ ys) = ids xs \<union> ids ys"
  by (auto simp: ids_def)

lemma edges_within_simps [simp]:
  "edges_within ns []"
  "edges_within ns (e # es) \<longleftrightarrow> efrom e \<in> ids ns \<and> eto e \<in> ids ns \<and> edges_within ns es"
  "edges_within ns (es @ es') \<longleftrightarrow> edges_within ns es \<and> edges_within ns es'"
  by (auto simp: edges_within_def)

lemma edges_within_grow:
  "edges_within ns es \<Longrightarrow> edges_within (ns @ ms) es"
  "edges_within ms es \<Longrightarrow> edges_within (ns @ ms) es"
  by (auto simp: edges_within_def)

lemma scan_closed_call:
  "scan_closed self s \<Longrightarrow> scan_closed self ((add_call_site path sp c s)\<lparr>sc_last := sc_uuid s\<rparr>)"
  by (auto simp: scan_closed_def add_call_site_def intro: edges_within_grow)

lemma scan_closed_spawn:
  "scan_closed self s \<Longrightarrow> scan_closed self (spawn self d (sc_uuid s) (add_call_site path sp c s))"
  by (auto simp: scan_closed_def add_call_site_def spawn_def enter_def Let_def
        intro: edges_within_grow)

lemma nodes_grow_call:
  "ids (sc_nodes s) \<subseteq> ids (sc_nodes ((add_call_site path sp c s)\<lparr>sc_last := l\<rparr>))"
  "ids (sc_nodes s) \<subseteq> ids (sc_nodes (spawn self d k (add_call_site path sp c s)))"
  by (auto simp: add_call_site_def)

lemma visit_all_closed:
  assumes "scan_closed self s"
  shows "scan_closed self (visit_all self path sl el ns s)
    \<and> ids (sc_nodes s) \<subseteq> ids (sc_nodes (visit_all self path sl el ns s))"
proof -
  let ?P = "\<lambda>s' (ds :: decl_ref list). scan_closed self s' \<and> ids (sc_nodes s) \<subseteq> ids (sc_nodes s')"
  have "?P s []" using assms by simp
  then obtain ds' where "?P (visit_all self path sl el ns s) ([] @ ds')"
  proof (rule visit_all_rule [where P = ?P])
    fix s' sp c and ds :: "decl_ref list"
    assume "?P s' ds"
    then have a: "scan_closed self s'" and b: "ids (sc_nodes s) \<subseteq> ids (sc_nodes s')"
      by simp_all
    from a have "scan_closed self ((add_call_site path sp c s')\<lparr>sc_last := sc_uuid s'\<rparr>)"
      by (rule scan_closed_call)
    moreover from b have "ids (sc_nodes s)
        \<subseteq> ids (sc_nodes ((add_call_site path sp c s')\<lparr>sc_last := sc_uuid s'\<rparr>))"
      by (auto simp: add_call_site_def)
    ultimately show "?P ((add_call_site path sp c s')\<lparr>sc_last := sc_uuid s'\<rparr>) ds"
      by simp
  next
    fix s' sp c d and ds :: "decl_ref list"
    assume "?P s' ds"
    then have a: "scan_closed self s'" and b: "ids (sc_nodes s) \<subseteq> ids (sc_nodes s')"
      by simp_all
    from a have "scan_closed self (spawn self d (sc_uuid s') (add_call_site path sp c s'))"
      by (rule scan_closed_spawn)
    moreover from b have "ids (sc_nodes s)
        \<subseteq> ids (sc_nodes (spawn self d (sc_uuid s') (add_call_site path sp c s')))"
      by (auto simp: add_call_site_def)
    ultimately show "?P (spawn self d (sc_uuid s') (add_call_site path sp c s')) (ds @ [d])"
      by simp
  qed
  then show ?thesis by simp
qed

lemma on_result_closed:
  assumes "scope_closed sc" and "result_closed r" and "c \<in> ids (localNodes sc)"
  shows "scope_closed (fst (on_result c r sc u))"
    and "ids (localNodes sc) \<subseteq> ids (localNodes (fst (on_result c r sc u)))"
  using assms
  by (auto simp: on_result_def scope_closed_def result_closed_def Let_def
        split: option.splits intro: edges_within_grow)

lemma finish_closed:
  "scope_closed sc \<Longrightarrow> result_closed (fst (finish sc u))"
  by (auto simp: finish_def scope_closed_def result_closed_def Let_def)

lemma boundary_ids [simp]:
  "ids (function_boundary sf q name g u) = {u, Suc u}"
  "ids (block_boundary q u) = {u, Suc u}"
  "ids (file_boundary q sf u) = {u, Suc u}"
  by (simp_all add: function_boundary_def block_boundary_def file_boundary_def)

lemma result_closed_simple [simp]:
  "result_closed empty_result"
  "result_closed \<lparr>nodes = [unresolved_note q name u], edges = [], entryNodeId = Some u,
      exitNodeId = Some u\<rparr>"
  by (simp_all add: result_closed_def empty_result_def unresolved_note_def)

lemma fr_then_set_status [simp]:
  "j < length fs \<Longrightarrow> fr_then (set_status i st fs ! j) = fr_then (fs ! j)"
  "j < length fs \<Longrightarrow> fr_request (set_status i st fs ! j) = fr_request (fs ! j)"
  by (simp_all add: nth_set_status)

lemma fr_status_set_status:
  "j < length fs \<Longrightarrow> fr_status (set_status i st fs ! j) = (if j = i then st else fr_status (fs ! j))"
  by (simp add: nth_set_status)

lemma frames_closed_update:
  assumes closed: "frames_closed fs" and i: "i < length fs"
    and st: "case st of Awaiting sc \<Rightarrow> scope_closed sc | Resolved r \<Rightarrow> result_closed r | _ \<Rightarrow> True"
    and live: "fr_status (fs ! i) \<noteq> Delivered"
    and children: "\<And>j c. j < length fs \<Longrightarrow> fr_then (fs ! j) = Some (i, c) \<Longrightarrow>
        fr_status (fs ! j) \<noteq> Delivered \<Longrightarrow> \<exists>sc. st = Awaiting sc \<and> c \<in> ids (localNodes sc)"
  shows "frames_closed (set_status i st fs)"
  unfolding frames_closed_def
proof (intro allI impI conjI)
  fix j assume "j < length (set_status i st fs)"
  then have j: "j < length fs" by simp
  from closed j have fc: "frame_closed (fs ! j)" and cr: "callback_ready fs (fs ! j)"
    by (simp_all add: frames_closed_def)
  show "frame_closed (set_status i st fs ! j)"
    using fc st j by (simp add: frame_closed_def fr_status_set_status)
  show "callback_ready (set_status i st fs) (set_status i st fs ! j)"
  proof (cases "fr_then (fs ! j)")
    case None
    with j show ?thesis by (simp add: callback_ready_def)
  next
    case (Some pc)
    obtain p c where pc: "pc = (p, c)" by (cases pc)
    show ?thesis
    proof (cases "fr_status (fs ! j) = Delivered")
      case True
      with live have "j \<noteq> i" by auto
      with True j Some pc show ?thesis
        by (simp add: callback_ready_def fr_status_set_status)
    next
      case False
      with cr Some pc obtain sc where p: "p < length fs"
        and sc: "fr_status (fs ! p) = Awaiting sc" "c \<in> ids (localNodes sc)"
        by (auto simp: callback_ready_def split: status.splits)
      show ?thesis
      proof (cases "p = i")
        case True
        from children [OF j] Some pc True False obtain sc' where
          "st = Awaiting sc'" "c \<in> ids (localNodes sc')" by auto
        with True j i Some pc show ?thesis
          by (simp add: callback_ready_def fr_status_set_status)
      next
        case False
        with p sc j Some pc show ?thesis
          by (simp add: callback_ready_def fr_status_set_status)
      qed
    qed
  qed
qed

lemma frames_closed_append:
  assumes closed: "frames_closed fs"
    and new: "\<And>f. f \<in> set new \<Longrightarrow> frame_closed f \<and> callback_ready (fs @ new) f"
  shows "frames_closed (fs @ new)"
  unfolding frames_closed_def
proof (intro allI impI)
  fix j assume j: "j < length (fs @ new)"
  show "frame_closed ((fs @ new) ! j) \<and> callback_ready (fs @ new) ((fs @ new) ! j)"
  proof (cases "j < length fs")
    case True
    with closed have fc: "frame_closed (fs ! j)" and cr: "callback_ready fs (fs ! j)"
      by (simp_all add: frames_closed_def)
    from cr have "callback_ready (fs @ new) (fs ! j)"
      by (auto simp: callback_ready_def nth_append split: option.splits)
    with fc True show ?thesis by (simp add: nth_append)
  next
    case False
    with j have "(fs @ new) ! j \<in> set new" by (simp add: nth_append)
    then show ?thesis by (rule new)
  qed
qed

lemma frames_closed_resume:
  assumes closed: "frames_closed (frames sv)" and i: "i < length (frames sv)"
    and loading: "fr_status (frames sv ! i) = Loading"
  shows "frames_closed (frames (resume project i sv))"
proof -
  let ?q = "fr_request (frames sv ! i)"
  have no_children: "\<exists>sc. st = Awaiting sc \<and> c \<in> ids (localNodes sc)"
    if "j < length (frames sv)" "fr_then (frames sv ! j) = Some (i, c)"
      "fr_status (frames sv ! j) \<noteq> Delivered" for j c st
  proof -
    from closed that(1) have "callback_ready (frames sv) (frames sv ! j)"
      by (simp add: frames_closed_def)
    with that(2,3) loading show ?thesis by (simp add: callback_ready_def)
  qed
  have return: "frames_closed (frames (resume project i sv))"
    if "resolve_scope (project (q_filePath ?q) i) ?q (next_uuid sv) = Return r u" "result_closed r" for r u
  proof -
    have "frames_closed (set_status i (Resolved r) (frames sv))"
      using closed i _ _ no_children
      by (rule frames_closed_update) (simp_all add: that loading)
    then show ?thesis by (simp add: resume_Return [where project = project, OF that(1)])
  qed
  have proceed: "frames_closed (frames (resume project i sv))"
    if rs: "resolve_scope (project (q_filePath ?q) i) ?q (next_uuid sv)
         = Proceed root ns (Some u) (Some (Suc u)) (Suc (Suc u))"
      and ns: "ids ns = {u, Suc u}" for root ns u
  proof -
    define s0 where "s0 = \<lparr>sc_visited = visitedFunctions sv, sc_uuid = Suc (Suc u), sc_nodes = ns,
          sc_edges = [], sc_last = u, sc_spawned = []\<rparr>"
    define s where "s = visit_all i (source_path (project (q_filePath ?q) i)) (q_startLine ?q) (q_endLine ?q) root s0"
    define sc where "sc = \<lparr>localNodes = sc_nodes s, localEdges = sc_edges s,
                     currentScopeEntryNodeId = u, currentScopeExitNodeId = Suc u,
                     lastProcessedNodeIdInCurrentScope = sc_last s\<rparr>"
    have "scan_closed i s0" by (simp add: s0_def scan_closed_def ns)
    then have s: "scan_closed i s" and grow: "ids (sc_nodes s0) \<subseteq> ids (sc_nodes s)"
      unfolding s_def using visit_all_closed by blast+
    from grow have ends: "u \<in> ids (sc_nodes s)" "Suc u \<in> ids (sc_nodes s)"
      by (auto simp: s0_def ns)
    have sc: "scope_closed sc"
      using s ends by (simp add: sc_def scope_closed_def scan_closed_def)
    have upd: "frames_closed (set_status i (Awaiting sc) (frames sv))"
      using closed i _ _ no_children
      by (rule frames_closed_update) (simp_all add: sc loading)
    have "frames_closed (set_status i (Awaiting sc) (frames sv) @ sc_spawned s)"
      using upd
    proof (rule frames_closed_append)
      fix f assume "f \<in> set (sc_spawned s)"
      with s obtain c where f: "fr_status f = Loading \<or> fr_status f = Resolved empty_result"
        "c \<in> ids (sc_nodes s)" "fr_then f = Some (i, c)"
        by (auto simp: scan_closed_def)
      from f(1) have "frame_closed f" by (auto simp: frame_closed_def)
      moreover have "callback_ready (set_status i (Awaiting sc) (frames sv) @ sc_spawned s) f"
        using f i by (simp add: callback_ready_def nth_append fr_status_set_status sc_def)
      ultimately show "frame_closed f
          \<and> callback_ready (set_status i (Awaiting sc) (frames sv) @ sc_spawned s) f" ..
    qed
    then show ?thesis
      by (simp add: resume_Proceed [where project = project, OF rs s_def [unfolded s0_def]] sc_def)
  qed
  show ?thesis
  proof (cases rule: resolve_scope_cases [of "project (q_filePath ?q) i" ?q "next_uuid sv"])
    case Empty
    then show ?thesis by (rule return) simp
  next
    case (Unresolved sf name caller)
    from Unresolved(6) show ?thesis by (rule return) simp
  next
    case (Found sf name g)
    from Found(5) show ?thesis by (rule proceed) simp
  next
    case (Block sf)
    from Block(4) show ?thesis by (rule proceed) simp
  next
    case (File sf)
    from File(4) show ?thesis by (rule proceed) simp
  qed
qed

lemma frames_closed_complete:
  assumes closed: "frames_closed (frames sv)" and i: "i < length (frames sv)"
    and en: "enabled sv i"
  shows "frames_closed (frames (complete i sv))"
proof (cases "fr_status (frames sv ! i)")
  case (Awaiting sc)
  from closed i Awaiting have sc: "scope_closed sc"
    by (auto simp: frames_closed_def frame_closed_def)
  from en Awaiting have settled: "children_settled i (frames sv)"
    by (simp add: enabled_def)
  have "frames_closed (set_status i (Resolved (fst (finish sc (next_uuid sv)))) (frames sv))"
    using closed i
  proof (rule frames_closed_update)
    show "case Resolved (fst (finish sc (next_uuid sv))) of
        Awaiting sc \<Rightarrow> scope_closed sc | Resolved r \<Rightarrow> result_closed r | _ \<Rightarrow> True"
      using sc by (simp add: finish_closed)
    show "fr_status (frames sv ! i) \<noteq> Delivered" using Awaiting by simp
    fix j c
    assume "j < length (frames sv)" "fr_then (frames sv ! j) = Some (i, c)"
      "fr_status (frames sv ! j) \<noteq> Delivered"
    with settled have False
      by (auto simp: children_settled_def list_all_length)
    then show "\<exists>sc'. Resolved (fst (finish sc (next_uuid sv))) = Awaiting sc'
        \<and> c \<in> ids (localNodes sc')" ..
  qed
  with Awaiting show ?thesis
    by (simp add: complete_def case_prod_beta)
qed (simp_all add: complete_def assms)

lemma frames_closed_deliver:
  assumes closed: "frames_closed (frames sv)" and j: "j < length (frames sv)"
  shows "frames_closed (frames (deliver j sv))"
proof (cases "fr_status (frames sv ! j)")
  case (Resolved r)
  show ?thesis
  proof (cases "fr_then (frames sv ! j)")
    case None
    with Resolved closed show ?thesis by (simp add: deliver_def)
  next
    case (Some pc)
    obtain i c where pc: "pc = (i, c)" by (cases pc)
    from closed j have "callback_ready (frames sv) (frames sv ! j)"
      and r: "result_closed r"
      using Resolved by (auto simp: frames_closed_def frame_closed_def)
    with Some pc Resolved obtain sc where i: "i < length (frames sv)"
      and sc: "fr_status (frames sv ! i) = Awaiting sc" "c \<in> ids (localNodes sc)"
      by (auto simp: callback_ready_def split: status.splits)
    from closed i sc have scc: "scope_closed sc"
      by (auto simp: frames_closed_def frame_closed_def)
    let ?sc' = "fst (on_result c r sc (next_uuid sv))"
    let ?fs1 = "set_status i (Awaiting ?sc') (frames sv)"
    have ne: "i \<noteq> j" using sc Resolved by auto
    have step1: "frames_closed ?fs1"
      using closed i
    proof (rule frames_closed_update)
      show "case Awaiting ?sc' of
          Awaiting sc \<Rightarrow> scope_closed sc | Resolved r \<Rightarrow> result_closed r | _ \<Rightarrow> True"
        using on_result_closed(1) [OF scc r sc(2)] by simp
      show "fr_status (frames sv ! i) \<noteq> Delivered" using sc by simp
      fix k c'
      assume k: "k < length (frames sv)" "fr_then (frames sv ! k) = Some (i, c')"
        "fr_status (frames sv ! k) \<noteq> Delivered"
      from closed k(1) have "callback_ready (frames sv) (frames sv ! k)"
        by (simp add: frames_closed_def)
      with k(2,3) sc have "c' \<in> ids (localNodes sc)"
        by (simp add: callback_ready_def)
      with on_result_closed(2) [OF scc r sc(2)] have "c' \<in> ids (localNodes ?sc')" by blast
      then show "\<exists>sc'. Awaiting ?sc' = Awaiting sc' \<and> c' \<in> ids (localNodes sc')" by blast
    qed
    have "frames_closed (set_status j Delivered ?fs1)"
      using step1
    proof (rule frames_closed_update)
      show "j < length ?fs1" using j by simp
      show "case Delivered of
          Awaiting sc \<Rightarrow> scope_closed sc | Resolved r \<Rightarrow> result_closed r | _ \<Rightarrow> True" by simp
      show "fr_status (?fs1 ! j) \<noteq> Delivered"
        using j ne Resolved by (simp add: fr_status_set_status)
      fix k c'
      assume k: "k < length ?fs1" "fr_then (?fs1 ! k) = Some (j, c')"
        "fr_status (?fs1 ! k) \<noteq> Delivered"
      from step1 k(1) have "callback_ready ?fs1 (?fs1 ! k)"
        by (simp add: frames_closed_def)
      with k j ne Resolved have False
        by (simp add: callback_ready_def fr_status_set_status)
      then show "\<exists>sc. Delivered = Awaiting sc \<and> c' \<in> ids (localNodes sc)" ..
    qed
    then show ?thesis
      using Resolved Some pc i sc
      by (simp add: deliver_def case_prod_beta)
  qed
qed (simp_all add: deliver_def assms)

lemma frames_closed_step:
  assumes "frames_closed (frames sv)" and "i \<in> set (runnable sv)"
  shows "frames_closed (frames (step project i sv))"
proof -
  from assms(2) have i: "i < length (frames sv)" and en: "enabled sv i"
    by (simp_all add: runnable_iff)
  show ?thesis
  proof (cases "fr_status (frames sv ! i)")
    case Loading
    with assms(1) i show ?thesis by (simp add: step_def frames_closed_resume)
  next
    case (Awaiting sc)
    with assms(1) i en show ?thesis by (simp add: step_def frames_closed_complete)
  next
    case (Resolved r)
    with assms(1) i show ?thesis by (simp add: step_def frames_closed_deliver)
  next
    case Delivered
    with assms(1) show ?thesis by (simp add: step_def)
  qed
qed

subsection \<open>The measure of the work left\<close>

lemma targetFunctionName_nonempty [simp]: "targetFunctionName d \<noteq> []"
  by (auto simp: targetFunctionName_def truthy_def Let_def split: option.splits)

lemma target_request_simps [simp]:
  "q_isRecursiveCall (target_request d c)"
  "q_filePath (target_request d c) = decl_file d"
  "q_functionName (target_request d c) = Some (targetFunctionName d)"
  "q_startLine (target_request d c) = Some (decl_line d)"
  "q_endLine (target_request d c) = None"
  "q_callerNodeId (target_request d c) = Some c"
  by (simp_all add: target_request_def)

lemma visitedKey_target [simp]: "visitedKey (target_request d c) = target_key d"
  by (simp add: visitedKey_def target_request_def target_key_def)

lemma finite_project_keys: "finite (views project) \<Longrightarrow> finite (project_keys project)"
  by (auto simp: project_keys_def)

lemma fan_out_bound:
  assumes "finite (views project)" and "sf \<in> views project" and "sc \<in> set (scopes sf)"
  shows "length (targets_list sc) \<le> fan_out project"
proof -
  have "length (targets_list sc) \<le> sum_list (map (\<lambda>sc. length (targets_list sc)) (scopes sf))"
    using assms(3) by (induction "scopes sf" arbitrary: sc) (auto simp: member_le_sum_list)
  also have "\<dots> \<le> fan_out project"
    unfolding fan_out_def using assms(1,2)
    by (intro member_le_sum [where f = "\<lambda>sf. sum_list (map (\<lambda>sc. length (targets_list sc)) (scopes sf))"])
       auto
  finally show ?thesis .
qed

lemma sum_weight_update:
  "i < length fs \<Longrightarrow>
     sum_list (map w (set_status i st fs)) + w (fs ! i)
       = sum_list (map w fs) + (w ((fs ! i)\<lparr>fr_status := st\<rparr>) :: nat)"
  unfolding set_status_def
proof (induction fs arbitrary: i)
  case Nil
  then show ?case by simp
next
  case (Cons f fs)
  then show ?case by (cases i) (auto simp: add_ac)
qed

lemma first_match_member:
  "first_match n l cs = Some g \<Longrightarrow> \<exists>m sp. (m, sp, g) \<in> set cs"
  by (induction cs) (auto simp: first_match_def split: if_splits)

lemma findFunctionByName_search:
  "findFunctionByName sourceFile name anchorLine = first_match name anchorLine (search_order sourceFile)"
  by (simp add: findFunctionByName_def search_order_def first_match_append first_match_functions
        scan_classes_search scan_variables_search split: option.splits)

lemma found_scope:
  "findFunctionByName sf name l = Some g \<Longrightarrow> fn_children g \<in> set (scopes sf)"
  by (auto simp: findFunctionByName_search scopes_def dest!: first_match_member intro: rev_image_eqI)

text \<open>The walk: each started callee costs at most one unit of potential.\<close>

lemma potential_call:
  "potential U M (sc_visited ((add_call_site path sp c s)\<lparr>sc_last := l\<rparr>))
       (sc_spawned ((add_call_site path sp c s)\<lparr>sc_last := l\<rparr>))
     = potential U M (sc_visited s) (sc_spawned s)"
  by (simp add: potential_def)

lemma potential_spawn:
  assumes "finite U" and "target_key d \<in> U"
  shows "potential U M (sc_visited (spawn self d k (add_call_site path sp c s)))
           (sc_spawned (spawn self d k (add_call_site path sp c s)))
         \<le> Suc (potential U M (sc_visited s) (sc_spawned s))"
proof (cases "target_key d \<in> sc_visited s")
  case True
  then show ?thesis
    by (simp add: spawn_def enter_def Let_def potential_def weight_def)
next
  case False
  with assms have mem: "target_key d \<in> U - sc_visited s" by simp
  have fin: "finite (U - sc_visited s)" using assms(1) by simp
  have "U - insert (target_key d) (sc_visited s) = (U - sc_visited s) - {target_key d}"
    by auto
  with card_Suc_Diff1 [OF fin mem]
  have "card (U - sc_visited s) = Suc (card (U - insert (target_key d) (sc_visited s)))"
    by simp
  then have "card (U - insert (target_key d) (sc_visited s)) * (M + 3) + (M + 3)
      = card (U - sc_visited s) * (M + 3)"
    by simp
  with False show ?thesis
    by (simp add: spawn_def enter_def Let_def potential_def weight_def)
qed

lemma potential_visit_all:
  assumes "finite U" and "target_key ` set (targets_list ns) \<subseteq> U"
  shows "potential U M (sc_visited (visit_all self path sl el ns s))
           (sc_spawned (visit_all self path sl el ns s))
         \<le> potential U M (sc_visited s) (sc_spawned s) + length (targets_list ns)"
proof -
  let ?P = "\<lambda>(s' :: scan) (ds :: decl_ref list).
      potential U M (sc_visited s') (sc_spawned s')
        \<le> potential U M (sc_visited s) (sc_spawned s) + length ds"
  have "?P s []" by simp
  then obtain ds' where "?P (visit_all self path sl el ns s) ([] @ ds')"
    and "length ds' \<le> length (targets_list ns)"
  proof (rule visit_all_rule [where P = ?P])
    fix s' sp c and ds :: "decl_ref list"
    assume "?P s' ds"
    then show "?P ((add_call_site path sp c s')\<lparr>sc_last := sc_uuid s'\<rparr>) ds"
      by (simp only: potential_call)
  next
    fix s' sp c d and ds :: "decl_ref list"
    assume P: "?P s' ds" and "d \<in> set (targets_list ns)"
    with assms(2) have "target_key d \<in> U" by auto
    from potential_spawn [OF assms(1) this, of M self "sc_uuid s'" path sp c s'] P
    show "?P (spawn self d (sc_uuid s') (add_call_site path sp c s')) (ds @ [d])"
      by simp
  qed
  then show ?thesis by simp
qed

subsection \<open>Every resumption lowers the potential\<close>

lemma potential_set_status:
  assumes "i < length fs" and "weight M ((fs ! i)\<lparr>fr_status := st\<rparr>) + k \<le> weight M (fs ! i)"
  shows "potential U M V (set_status i st fs) + k \<le> potential U M V fs"
  using sum_weight_update [OF assms(1), of "weight M" st] assms(2)
  by (simp add: potential_def)

lemma potential_resume:
  assumes fin: "finite U"
    and keys: "\<And>sf sc. sf \<in> views project \<Longrightarrow> sc \<in> set (scopes sf) \<Longrightarrow>
        target_key ` set (targets_list sc) \<subseteq> U"
    and fan: "\<And>sf sc. sf \<in> views project \<Longrightarrow> sc \<in> set (scopes sf) \<Longrightarrow>
        length (targets_list sc) \<le> M"
    and i: "i < length (frames sv)" and loading: "fr_status (frames sv ! i) = Loading"
  shows "potential U M (visitedFunctions (resume project i sv)) (frames (resume project i sv))
     < potential U M (visitedFunctions sv) (frames sv)"
proof -
  let ?q = "fr_request (frames sv ! i)"
  let ?\<Phi> = "potential U M (visitedFunctions sv) (frames sv)"
  have w: "weight M (frames sv ! i) = M + 3" using loading by (simp add: weight_def)
  have return: ?thesis if "resolve_scope (project (q_filePath ?q) i) ?q (next_uuid sv) = Return r u" for r u
  proof -
    have "weight M ((frames sv ! i)\<lparr>fr_status := Resolved r\<rparr>) + 1 \<le> weight M (frames sv ! i)"
      by (simp add: w) (simp add: weight_def)
    from potential_set_status [OF i this, of U "visitedFunctions sv"]
    show ?thesis by (simp add: resume_Return [where project = project, OF that])
  qed
  have proceed: ?thesis
    if rs: "resolve_scope (project (q_filePath ?q) i) ?q (next_uuid sv)
         = Proceed root ns (Some u) (Some (Suc u)) (Suc (Suc u))"
      and root: "root \<in> set (scopes sf)" and sf: "sf \<in> views project" for root ns u sf
  proof -
    define s0 where "s0 = \<lparr>sc_visited = visitedFunctions sv, sc_uuid = Suc (Suc u), sc_nodes = ns,
          sc_edges = [], sc_last = u, sc_spawned = []\<rparr>"
    define s where "s = visit_all i (source_path (project (q_filePath ?q) i)) (q_startLine ?q) (q_endLine ?q) root s0"
    define sc where "sc = \<lparr>localNodes = sc_nodes s, localEdges = sc_edges s,
                     currentScopeEntryNodeId = u, currentScopeExitNodeId = Suc u,
                     lastProcessedNodeIdInCurrentScope = sc_last s\<rparr>"
    have "potential U M (sc_visited s) (sc_spawned s)
        \<le> potential U M (sc_visited s0) (sc_spawned s0) + length (targets_list root)"
      unfolding s_def by (rule potential_visit_all [OF fin keys [OF sf root]])
    also have "\<dots> \<le> potential U M (sc_visited s0) (sc_spawned s0) + M"
      using fan [OF sf root] by simp
    finally have walk: "sum_list (map (weight M) (sc_spawned s)) + card (U - sc_visited s) * (M + 3)
        \<le> card (U - visitedFunctions sv) * (M + 3) + M"
      by (simp add: potential_def s0_def)
    have "weight M ((frames sv ! i)\<lparr>fr_status := Awaiting sc\<rparr>) + (M + 1) \<le> weight M (frames sv ! i)"
      by (simp add: w) (simp add: weight_def)
    from potential_set_status [OF i this, of U "visitedFunctions sv"]
    have "sum_list (map (weight M) (set_status i (Awaiting sc) (frames sv))) + (M + 1)
        + card (U - visitedFunctions sv) * (M + 3) \<le> ?\<Phi>"
      by (simp add: potential_def)
    with walk have "potential U M (sc_visited s) (set_status i (Awaiting sc) (frames sv) @ sc_spawned s)
        < ?\<Phi>"
      by (simp add: potential_def)
    then show ?thesis
      by (simp add: resume_Proceed [where project = project, OF rs s_def [unfolded s0_def]] sc_def)
  qed
  show ?thesis
  proof (cases rule: resolve_scope_cases [of "project (q_filePath ?q) i" ?q "next_uuid sv"])
    case Empty
    then show ?thesis by (rule return)
  next
    case (Unresolved sf name caller)
    from Unresolved(6) show ?thesis by (rule return)
  next
    case (Found sf name g)
    from Found(5) found_scope [OF Found(4)] show ?thesis
      using Found(1) by (intro proceed [where sf = sf]) (auto simp: views_def)
  next
    case (Block sf)
    from Block(4) show ?thesis
      using Block(1) by (intro proceed [where sf = sf]) (auto simp: views_def scopes_def)
  next
    case (File sf)
    from File(4) show ?thesis
      using File(1) by (intro proceed [where sf = sf]) (auto simp: views_def scopes_def)
  qed
qed

lemma potential_complete:
  assumes i: "i < length (frames sv)" and aw: "fr_status (frames sv ! i) = Awaiting sc"
  shows "potential U M (visitedFunctions (complete i sv)) (frames (complete i sv))
     < potential U M (visitedFunctions sv) (frames sv)"
proof -
  have "weight M ((frames sv ! i)\<lparr>fr_status := Resolved (fst (finish sc (next_uuid sv)))\<rparr>) + 1
      \<le> weight M (frames sv ! i)"
    using aw by (simp add: weight_def)
  from potential_set_status [OF i this, of U "visitedFunctions sv"] aw
  show ?thesis by (simp add: complete_def case_prod_beta)
qed

lemma potential_deliver:
  assumes j: "j < length (frames sv)" and res: "fr_status (frames sv ! j) = Resolved r"
    and cb: "fr_then (frames sv ! j) \<noteq> None"
  shows "potential U M (visitedFunctions (deliver j sv)) (frames (deliver j sv))
     < potential U M (visitedFunctions sv) (frames sv)"
proof -
  from cb obtain i c where ic: "fr_then (frames sv ! j) = Some (i, c)" by auto
  have drop: "potential U M V (set_status j Delivered fs) + 1 \<le> potential U M V fs"
    if "j < length fs" "fr_status (fs ! j) = Resolved r" "fr_then (fs ! j) \<noteq> None" for fs V
  proof -
    have "weight M ((fs ! j)\<lparr>fr_status := Delivered\<rparr>) + 1 \<le> weight M (fs ! j)"
      using that by (simp add: weight_def)
    from potential_set_status [OF that(1) this] show ?thesis .
  qed
  show ?thesis
  proof (cases "i < length (frames sv) \<and> (\<exists>sc. fr_status (frames sv ! i) = Awaiting sc)")
    case True
    then obtain sc where i: "i < length (frames sv)" and sc: "fr_status (frames sv ! i) = Awaiting sc"
      by blast
    let ?sc' = "fst (on_result c r sc (next_uuid sv))"
    let ?fs1 = "set_status i (Awaiting ?sc') (frames sv)"
    have ne: "i \<noteq> j" using sc res by auto
    have "weight M ((frames sv ! i)\<lparr>fr_status := Awaiting ?sc'\<rparr>) + 0 \<le> weight M (frames sv ! i)"
      using sc by (simp add: weight_def)
    from potential_set_status [OF i this, of U "visitedFunctions sv"]
    have "potential U M (visitedFunctions sv) ?fs1 \<le> potential U M (visitedFunctions sv) (frames sv)"
      by simp
    moreover have "potential U M (visitedFunctions sv) (set_status j Delivered ?fs1) + 1
        \<le> potential U M (visitedFunctions sv) ?fs1"
      using j ne res cb by (intro drop) (simp_all add: fr_status_set_status)
    ultimately show ?thesis
      using res ic i sc by (simp add: deliver_def case_prod_beta)
  next
    case False
    then have "deliver j sv = sv\<lparr>frames := set_status j Delivered (frames sv)\<rparr>"
      using res ic by (auto simp: deliver_def split: status.splits)
    with drop [OF j res cb, of "visitedFunctions sv"] show ?thesis by simp
  qed
qed

lemma potential_step:
  assumes "finite U"
    and "\<And>sf sc. sf \<in> views project \<Longrightarrow> sc \<in> set (scopes sf) \<Longrightarrow>
        target_key ` set (targets_list sc) \<subseteq> U"
    and "\<And>sf sc. sf \<in> views project \<Longrightarrow> sc \<in> set (scopes sf) \<Longrightarrow>
        length (targets_list sc) \<le> M"
    and "i \<in> set (runnable sv)"
  shows "potential U M (visitedFunctions (step project i sv)) (frames (step project i sv))
     < potential U M (visitedFunctions sv) (frames sv)"
proof -
  from assms(4) have i: "i < length (frames sv)" and en: "enabled sv i"
    by (simp_all add: runnable_iff)
  show ?thesis
  proof (cases "fr_status (frames sv ! i)")
    case Loading
    with potential_resume [OF assms(1-3) i] show ?thesis by (simp add: step_def)
  next
    case (Awaiting sc)
    with potential_complete [OF i] show ?thesis by (simp add: step_def)
  next
    case (Resolved r)
    moreover from en Resolved have "fr_then (frames sv ! i) \<noteq> None" by (simp add: enabled_def)
    ultimately show ?thesis using potential_deliver [OF i] by (simp add: step_def)
  next
    case Delivered
    with en show ?thesis by (simp add: enabled_def)
  qed
qed

lemma run_returns:
  assumes "finite (views project)"
  shows "\<exists>sv'. run project sched t sv = Some sv'"
proof (rule run_terminates
    [where m = "\<lambda>sv. potential (project_keys project) (fan_out project)
                       (visitedFunctions sv) (frames sv)"])
  fix sv i assume i: "i \<in> set (runnable sv)"
  show "potential (project_keys project) (fan_out project) (visitedFunctions (step project i sv))
          (frames (step project i sv))
        < potential (project_keys project) (fan_out project) (visitedFunctions sv) (frames sv)"
  proof (rule potential_step [OF finite_project_keys [OF assms] _ _ i])
    fix sf sc assume "sf \<in> views project" "sc \<in> set (scopes sf)"
    then show "target_key ` set (targets_list sc) \<subseteq> project_keys project"
      by (auto simp: project_keys_def)
    from fan_out_bound [OF assms \<open>sf \<in> views project\<close> \<open>sc \<in> set (scopes sf)\<close>]
    show "length (targets_list sc) \<le> fan_out project" .
  qed
qed

subsection \<open>No invocation is left waiting\<close>

lemma parseFunctionCalls_start:
  "parseFunctionCalls project sched visited uuid q =
     (case run project sched 0 (start q visited uuid) of
        None \<Rightarrow> None
      | Some sv \<Rightarrow> (case fr_status (frames sv ! 0) of Resolved r \<Rightarrow> Some r | _ \<Rightarrow> None))"
  by (simp add: parseFunctionCalls_def start_def case_prod_beta)

lemma start_status:
  "snd (enter q visited) = Loading \<or> snd (enter q visited) = Resolved empty_result"
  by (simp add: enter_def Let_def)

lemma tree_ordered_update:
  assumes "tree_ordered fs" and "i < length fs"
    and "st \<noteq> Delivered \<or> fr_then (fs ! i) \<noteq> None"
  shows "tree_ordered (set_status i st fs)"
  using assms
  by (auto simp: tree_ordered_def fr_status_set_status split: option.splits)

lemma tree_ordered_append:
  assumes "tree_ordered fs" and "\<And>f. f \<in> set new \<Longrightarrow> \<exists>p c. fr_then f = Some (p, c) \<and> p < length fs"
  shows "tree_ordered (fs @ new)"
  unfolding tree_ordered_def
proof (intro allI impI)
  fix j assume j: "j < length (fs @ new)"
  show "case fr_then ((fs @ new) ! j) of
          None \<Rightarrow> j = 0 \<and> fr_status ((fs @ new) ! j) \<noteq> Delivered
        | Some (p, c) \<Rightarrow> p < j"
  proof (cases "j < length fs")
    case True
    with assms(1) show ?thesis
      by (auto simp: tree_ordered_def nth_append split: option.splits)
  next
    case False
    with j have "(fs @ new) ! j \<in> set new" by (simp add: nth_append)
    from assms(2) [OF this] False show ?thesis by auto
  qed
qed

lemma spawned_callbacks:
  "\<forall>f \<in> set (sc_spawned s). \<exists>c. fr_then f = Some (self, c) \<Longrightarrow>
   \<forall>f \<in> set (sc_spawned (visit_all self path sl el ns s)). \<exists>c. fr_then f = Some (self, c)"
proof -
  assume a: "\<forall>f \<in> set (sc_spawned s). \<exists>c. fr_then f = Some (self, c)"
  let ?P = "\<lambda>(s' :: scan) (ds :: decl_ref list). \<forall>f \<in> set (sc_spawned s'). \<exists>c. fr_then f = Some (self, c)"
  from a have "?P s []" .
  then obtain ds' where "?P (visit_all self path sl el ns s) ([] @ ds')"
    by (rule visit_all_rule [where P = ?P])
       (auto simp: spawn_def Let_def case_prod_beta)
  then show ?thesis .
qed

lemma tree_ordered_step:
  assumes "tree_ordered (frames sv)" and "i < length (frames sv)"
  shows "tree_ordered (frames (step project i sv))"
proof (cases "fr_status (frames sv ! i)")
  case Loading
  let ?q = "fr_request (frames sv ! i)"
  have return: "tree_ordered (frames (resume project i sv))"
    if "resolve_scope (project (q_filePath ?q) i) ?q (next_uuid sv) = Return r u" for r u
    using assms by (simp add: resume_Return [where project = project, OF that] tree_ordered_update)
  have proceed: "tree_ordered (frames (resume project i sv))"
    if rs: "resolve_scope (project (q_filePath ?q) i) ?q (next_uuid sv) = Proceed root ns (Some en) (Some ex) u"
    for root ns en ex u
  proof -
    define s where "s = visit_all i (source_path (project (q_filePath ?q) i)) (q_startLine ?q) (q_endLine ?q) root
        \<lparr>sc_visited = visitedFunctions sv, sc_uuid = u, sc_nodes = ns,
         sc_edges = [], sc_last = en, sc_spawned = []\<rparr>"
    have "\<forall>f \<in> set (sc_spawned s). \<exists>c. fr_then f = Some (i, c)"
      unfolding s_def by (rule spawned_callbacks) simp
    then have "tree_ordered (set_status i
        (Awaiting \<lparr>localNodes = sc_nodes s, localEdges = sc_edges s,
                   currentScopeEntryNodeId = en, currentScopeExitNodeId = ex,
                   lastProcessedNodeIdInCurrentScope = sc_last s\<rparr>) (frames sv) @ sc_spawned s)"
      using assms by (intro tree_ordered_append tree_ordered_update) auto
    then show ?thesis
      by (simp add: resume_Proceed [where project = project, OF rs s_def])
  qed
  have "tree_ordered (frames (resume project i sv))"
  proof (cases rule: resolve_scope_cases [of "project (q_filePath ?q) i" ?q "next_uuid sv"])
    case Empty
    then show ?thesis by (rule return)
  next
    case (Unresolved sf name caller)
    from Unresolved(6) show ?thesis by (rule return)
  next
    case (Found sf name g)
    from Found(5) show ?thesis by (rule proceed)
  next
    case (Block sf)
    from Block(4) show ?thesis by (rule proceed)
  next
    case (File sf)
    from File(4) show ?thesis by (rule proceed)
  qed
  with Loading show ?thesis by (simp add: step_def)
next
  case (Awaiting sc)
  with assms show ?thesis
    by (simp add: step_def complete_def case_prod_beta tree_ordered_update)
next
  case (Resolved r)
  with assms show ?thesis
    by (auto simp: step_def deliver_def case_prod_beta tree_ordered_update
          split: option.splits status.splits)
next
  case Delivered
  with assms show ?thesis by (simp add: step_def)
qed

lemma quiescent:
  assumes ord: "tree_ordered (frames sv)" and idle: "runnable sv = []"
  shows "j < length (frames sv) \<Longrightarrow>
     fr_status (frames sv ! j) = Delivered
     \<or> (\<exists>r. fr_status (frames sv ! j) = Resolved r \<and> fr_then (frames sv ! j) = None)"
proof (induction "length (frames sv) - j" arbitrary: j rule: less_induct)
  case less
  from idle less.prems have ne: "\<not> enabled sv j"
    by (auto simp: runnable_def filter_empty_conv)
  show ?case
  proof (cases "fr_status (frames sv ! j)")
    case Loading
    with ne show ?thesis by (simp add: enabled_def)
  next
    case (Awaiting sc)
    have "children_settled j (frames sv)"
      unfolding children_settled_def list_all_length
    proof (intro allI impI)
      fix k assume k: "k < length (frames sv)"
      show "case fr_then (frames sv ! k) of
              Some (p, c) \<Rightarrow> p = j \<longrightarrow> fr_status (frames sv ! k) = Delivered
            | None \<Rightarrow> True"
      proof (cases "fr_then (frames sv ! k)")
        case None
        then show ?thesis by simp
      next
        case (Some pc)
        obtain p c where pc: "pc = (p, c)" by (cases pc)
        show ?thesis
        proof (cases "p = j")
          case True
          from ord k Some pc True have "j < k" by (auto simp: tree_ordered_def)
          with k have "length (frames sv) - k < length (frames sv) - j" by simp
          from less.hyps [OF this k] Some have "fr_status (frames sv ! k) = Delivered" by auto
          with Some pc show ?thesis by simp
        next
          case False
          with Some pc show ?thesis by simp
        qed
      qed
    qed
    with ne Awaiting show ?thesis by (simp add: enabled_def)
  next
    case (Resolved r)
    with ne show ?thesis
      by (cases "fr_then (frames sv ! j)") (auto simp: enabled_def)
  next
    case Delivered
    then show ?thesis by simp
  qed
qed

lemma length_step: "length (frames sv) \<le> length (frames (step project i sv))"
  by (auto simp: step_def resume_def complete_def deliver_def Let_def
        split: status.splits resolution.splits option.splits prod.splits)

lemma root_callback_step:
  "0 < length (frames sv) \<Longrightarrow> fr_then (frames (step project i sv) ! 0) = fr_then (frames sv ! 0)"
  by (auto simp: step_def resume_def complete_def deliver_def Let_def nth_append
        split: status.splits resolution.splits option.splits prod.splits)

text \<open>
  What a run from the start state of a request establishes: it ends, the request's
  own invocation is resolved, every other invocation has delivered its result, and
  any property kept by each resumption holds at the end.
\<close>

lemma parse_outcome:
  assumes fin: "finite (views project)"
    and init: "P (start q visited uuid)"
    and step: "\<And>sv i. P sv \<Longrightarrow> i \<in> set (runnable sv) \<Longrightarrow> P (step project i sv)"
  obtains sv r where "run project sched 0 (start q visited uuid) = Some sv"
    and "parseFunctionCalls project sched visited uuid q = Some r"
    and "fr_status (frames sv ! 0) = Resolved r" and "P sv"
    and "\<And>j. 0 < j \<Longrightarrow> j < length (frames sv) \<Longrightarrow> fr_status (frames sv ! j) = Delivered"
    and "frames sv \<noteq> []"
proof -
  from run_returns [OF fin] obtain sv where run: "run project sched 0 (start q visited uuid) = Some sv"
    by blast
  let ?Q = "\<lambda>sv. P sv \<and> tree_ordered (frames sv) \<and> 0 < length (frames sv)
      \<and> fr_then (frames sv ! 0) = None"
  have "?Q sv \<and> runnable sv = []"
  proof (rule run_invariant [where P = ?Q, OF _ run])
    show "?Q (start q visited uuid)"
      using init start_status [of q visited]
      by (auto simp: start_def tree_ordered_def)
    fix sv i assume Q: "?Q sv" and i: "i \<in> set (runnable sv)"
    from i have "i < length (frames sv)" by (simp add: runnable_iff)
    with Q i show "?Q (step project i sv)"
      using step [of sv i] tree_ordered_step [of sv i project] length_step [of sv project i]
        root_callback_step [of sv project i]
      by auto
  qed
  then have P: "P sv" and ord: "tree_ordered (frames sv)" and len: "0 < length (frames sv)"
    and root: "fr_then (frames sv ! 0) = None" and idle: "runnable sv = []"
    by blast+
  from quiescent [OF ord idle len] ord len root obtain r where
    r: "fr_status (frames sv ! 0) = Resolved r"
    by (auto simp: tree_ordered_def)
  have others: "fr_status (frames sv ! j) = Delivered" if "0 < j" "j < length (frames sv)" for j
  proof -
    from ord that have "fr_then (frames sv ! j) \<noteq> None"
      by (auto simp: tree_ordered_def split: option.splits)
    with quiescent [OF ord idle that(2)] show ?thesis by auto
  qed
  have parse: "parseFunctionCalls project sched visited uuid q = Some r"
    by (simp add: parseFunctionCalls_start run r)
  from len have "frames sv \<noteq> []" by auto
  with run parse r P others show ?thesis by (rule that)
qed

lemma parse_result_closed:
  assumes "parseFunctionCalls project sched visited uuid q = Some r"
  shows "result_closed r"
proof -
  obtain visited' st where en: "enter q visited = (visited', st)" by (cases "enter q visited")
  let ?sv0 = "\<lparr>visitedFunctions = visited', next_uuid = uuid,
              frames = [\<lparr>fr_request = q, fr_then = None, fr_status = st\<rparr>]\<rparr>"
  from assms en obtain sv where run: "run project sched 0 ?sv0 = Some sv"
    and res: "fr_status (frames sv ! 0) = Resolved r"
    by (auto simp: parseFunctionCalls_def split: option.splits status.splits)
  from en have "st = Loading \<or> st = Resolved empty_result"
    by (auto simp: enter_def Let_def split: if_splits)
  then have init: "frames_closed (frames ?sv0)"
    by (auto simp: frames_closed_def frame_closed_def callback_ready_def)
  let ?P = "\<lambda>sv. frames_closed (frames sv) \<and> 0 < length (frames sv)"
  have len: "length (frames sv) \<le> length (frames (step project i sv))" for sv i
    by (auto simp: step_def resume_def complete_def deliver_def Let_def
          split: status.splits resolution.splits option.splits prod.splits)
  have "?P sv \<and> runnable sv = []"
  proof (rule run_invariant [where P = ?P, OF _ run])
    show "?P ?sv0" using init by simp
    fix sv i assume "?P sv" "i \<in> set (runnable sv)"
    then show "?P (step project i sv)"
      using frames_closed_step [of sv i project] len [of sv i] by auto
  qed
  with res show ?thesis
    by (auto simp: frames_closed_def frame_closed_def)
qed


text \<open>The run of the scenario: at every turn a single invocation can be resumed.\<close>

lemma scenario_extract:
  "extract_top a_project sched {} 0 ''a.ts'' (Some ''main'') None None = Some scenario_result"
proof -
  let ?s1 = "step a_project 0 scenario_start"
  let ?s2 = "step a_project 1 ?s1"
  let ?s3 = "step a_project 1 ?s2"
  let ?s4 = "step a_project 1 ?s3"
  let ?s5 = "step a_project 0 ?s4"
  have r0: "runnable scenario_start = [0]" by code_simp
  have r1: "runnable ?s1 = [1]" by code_simp
  have r2: "runnable ?s2 = [1]" by code_simp
  have r3: "runnable ?s3 = [1]" by code_simp
  have r4: "runnable ?s4 = [0]" by code_simp
  have r5: "runnable ?s5 = []" by code_simp
  have run: "run a_project sched 0 scenario_start = Some ?s5"
    by (simp only: run_single [OF r0] run_single [OF r1] run_single [OF r2]
          run_single [OF r3] run_single [OF r4] run_halt [OF r5])
  have fin: "fr_status (frames ?s5 ! 0) = Resolved scenario_result" by code_simp
  have start: "extract_top a_project sched {} 0 ''a.ts'' (Some ''main'') None None =
      (case run a_project sched 0 scenario_start of
         None \<Rightarrow> None
       | Some sv \<Rightarrow> (case fr_status (frames sv ! 0) of Resolved r \<Rightarrow> Some r | _ \<Rightarrow> None))"
    by (simp add: extract_top_def parseFunctionCalls_def enter_def visitedKey_def
          scenario_start_def)
  show ?thesis
    by (simp only: start run fin option.case status.case)
qed

lemma finite_a_project: "finite (views a_project)"
proof -
  have "views a_project \<subseteq> {a_ts}"
    by (auto simp: views_def a_project_def split: if_splits)
  then show ?thesis by (rule finite_subset) simp
qed

subsection \<open>Kinds of Steps\<close>

lemma no_entry_point_simps [simp]:
  "no_entry_point []"
  "no_entry_point (n # ns) \<longleftrightarrow> ntype n \<noteq> EntryPoint \<and> no_entry_point ns"
  "no_entry_point (xs @ ys) \<longleftrightarrow> no_entry_point xs \<and> no_entry_point ys"
  by (auto simp: no_entry_point_def)

lemma no_entry_point_tl: "no_entry_point ns \<Longrightarrow> no_entry_point (tl ns)"
  by (cases ns) simp_all

lemma kinds_walk:
  assumes "sc_nodes s = ns @ added" and "no_entry_point added" and "\<forall>f \<in> set (sc_spawned s). q_isRecursiveCall (fr_request f)"
  shows "\<exists>added'. sc_nodes (visit_all self path sl el root s) = ns @ added' \<and> no_entry_point added'
     \<and> (\<forall>f \<in> set (sc_spawned (visit_all self path sl el root s)). q_isRecursiveCall (fr_request f))"
proof -
  let ?P = "\<lambda>(s' :: scan) (ds :: decl_ref list).
      (\<exists>added'. sc_nodes s' = ns @ added' \<and> no_entry_point added')
      \<and> (\<forall>f \<in> set (sc_spawned s'). q_isRecursiveCall (fr_request f))"
  from assms have "?P s []" by blast
  then obtain ds' where "?P (visit_all self path sl el root s) ([] @ ds')"
    by (rule visit_all_rule [where P = ?P])
       (auto simp: add_call_site_def spawn_def Let_def case_prod_beta)
  then show ?thesis by blast
qed

lemma boundary_kinds:
  "\<exists>a b. function_boundary sf q name g u = [a, b] \<and> nid a = u \<and> nid b = Suc u
      \<and> ntype a = (if q_isRecursiveCall q then Function else EntryPoint) \<and> ntype b = ExitPoint"
  "\<exists>a b. block_boundary q u = [a, b] \<and> nid a = u \<and> nid b = Suc u
      \<and> ntype a = EntryPoint \<and> ntype b = ExitPoint"
  "\<exists>a b. file_boundary q sf u = [a, b] \<and> nid a = u \<and> nid b = Suc u
      \<and> ntype a = EntryPoint \<and> ntype b = ExitPoint"
  by (simp_all add: function_boundary_def block_boundary_def file_boundary_def)

lemma resolve_scope_kinds:
  assumes "resolve_scope loaded q u = Proceed root ns entry exit u'"
  shows "\<exists>a b. ns = [a, b] \<and> entry = Some (nid a) \<and> exit = Some (nid b)
      \<and> ntype a = (if q_isRecursiveCall q then Function else EntryPoint) \<and> ntype b = ExitPoint"
proof (cases rule: resolve_scope_cases [of loaded q u])
  case Empty
  with assms show ?thesis by simp
next
  case (Unresolved sf name caller)
  with assms show ?thesis by simp
next
  case (Found sf name g)
  with assms boundary_kinds(1) [of sf q name g u] show ?thesis by auto
next
  case (Block sf)
  with assms boundary_kinds(2) [of q u] show ?thesis by auto
next
  case (File sf)
  with assms boundary_kinds(3) [of q sf u] show ?thesis by auto
qed

lemma frames_kinds_update:
  assumes "frames_kinds fs" and "i < length fs" and "kinds_ok (fr_request (fs ! i)) st"
  shows "frames_kinds (set_status i st fs)"
  using assms by (auto simp: frames_kinds_def fr_status_set_status)

lemma frames_kinds_append:
  assumes "frames_kinds fs" and "fs \<noteq> []"
    and "\<And>f. f \<in> set new \<Longrightarrow> kinds_ok (fr_request f) (fr_status f) \<and> q_isRecursiveCall (fr_request f)"
  shows "frames_kinds (fs @ new)"
  unfolding frames_kinds_def
proof (intro allI impI)
  fix j assume j: "j < length (fs @ new)"
  show "kinds_ok (fr_request ((fs @ new) ! j)) (fr_status ((fs @ new) ! j))
      \<and> (0 < j \<longrightarrow> q_isRecursiveCall (fr_request ((fs @ new) ! j)))"
  proof (cases "j < length fs")
    case True
    with assms(1) show ?thesis by (simp add: frames_kinds_def nth_append)
  next
    case False
    with j have "(fs @ new) ! j \<in> set new" by (simp add: nth_append)
    from assms(3) [OF this] show ?thesis by simp
  qed
qed

lemma spawned_status:
  "\<forall>f \<in> set (sc_spawned s). fr_status f = Loading \<or> fr_status f = Resolved empty_result \<Longrightarrow>
   \<forall>f \<in> set (sc_spawned (visit_all self path sl el ns s)).
      fr_status f = Loading \<or> fr_status f = Resolved empty_result"
proof -
  assume a: "\<forall>f \<in> set (sc_spawned s). fr_status f = Loading \<or> fr_status f = Resolved empty_result"
  let ?P = "\<lambda>(s' :: scan) (ds :: decl_ref list).
      \<forall>f \<in> set (sc_spawned s'). fr_status f = Loading \<or> fr_status f = Resolved empty_result"
  from a have "?P s []" .
  then obtain ds' where "?P (visit_all self path sl el ns s) ([] @ ds')"
    by (rule visit_all_rule [where P = ?P])
       (auto simp: spawn_def enter_def Let_def case_prod_beta)
  then show ?thesis .
qed

lemma kinds_ok_simple [simp]:
  "kinds_ok q Loading" "kinds_ok q Delivered" "kinds_ok q (Resolved empty_result)"
  by (simp_all add: kinds_ok_def status_nodes_def status_entry_def empty_result_def)

lemma frames_kinds_resume:
  assumes kinds: "frames_kinds (frames sv)" and i: "i < length (frames sv)"
  shows "frames_kinds (frames (resume project i sv))"
proof -
  let ?q = "fr_request (frames sv ! i)"
  have return: "frames_kinds (frames (resume project i sv))"
    if "resolve_scope (project (q_filePath ?q) i) ?q (next_uuid sv) = Return r u" "kinds_ok ?q (Resolved r)" for r u
    using kinds i that(2) by (simp add: resume_Return [where project = project, OF that(1)] frames_kinds_update)
  have proceed: "frames_kinds (frames (resume project i sv))"
    if rs: "resolve_scope (project (q_filePath ?q) i) ?q (next_uuid sv)
         = Proceed root ns (Some u) (Some (Suc u)) (Suc (Suc u))" for root ns u
  proof -
    from resolve_scope_kinds [OF rs] obtain a b where ab: "ns = [a, b]" "nid a = u"
      "ntype a = (if q_isRecursiveCall ?q then Function else EntryPoint)" "ntype b = ExitPoint"
      by auto
    define s where "s = visit_all i (source_path (project (q_filePath ?q) i)) (q_startLine ?q) (q_endLine ?q) root
        \<lparr>sc_visited = visitedFunctions sv, sc_uuid = Suc (Suc u), sc_nodes = ns,
         sc_edges = [], sc_last = u, sc_spawned = []\<rparr>"
    define sc where "sc = \<lparr>localNodes = sc_nodes s, localEdges = sc_edges s,
                     currentScopeEntryNodeId = u, currentScopeExitNodeId = Suc u,
                     lastProcessedNodeIdInCurrentScope = sc_last s\<rparr>"
    have "\<exists>added'. sc_nodes s = ns @ added' \<and> no_entry_point added'
        \<and> (\<forall>f \<in> set (sc_spawned s). q_isRecursiveCall (fr_request f))"
      unfolding s_def by (rule kinds_walk [where added = "[]"]) simp_all
    then obtain added where added: "sc_nodes s = ns @ added" "no_entry_point added"
      and rec: "\<forall>f \<in> set (sc_spawned s). q_isRecursiveCall (fr_request f)" by blast
    have st: "\<forall>f \<in> set (sc_spawned s). fr_status f = Loading \<or> fr_status f = Resolved empty_result"
      unfolding s_def by (rule spawned_status) simp
    have "kinds_ok ?q (Awaiting sc)"
      using ab added by (simp add: kinds_ok_def status_nodes_def status_entry_def sc_def)
    with kinds i have "frames_kinds (set_status i (Awaiting sc) (frames sv))"
      by (simp add: frames_kinds_update)
    then have "frames_kinds (set_status i (Awaiting sc) (frames sv) @ sc_spawned s)"
    proof (rule frames_kinds_append)
      show "set_status i (Awaiting sc) (frames sv) \<noteq> []" using i by (auto simp: set_status_def)
      fix f assume "f \<in> set (sc_spawned s)"
      with rec st show "kinds_ok (fr_request f) (fr_status f) \<and> q_isRecursiveCall (fr_request f)"
        by auto
    qed
    then show ?thesis
      by (simp add: resume_Proceed [where project = project, OF rs s_def] sc_def)
  qed
  show ?thesis
  proof (cases rule: resolve_scope_cases [of "project (q_filePath ?q) i" ?q "next_uuid sv"])
    case Empty
    then show ?thesis by (rule return) simp
  next
    case (Unresolved sf name caller)
    from Unresolved(6) show ?thesis
      by (rule return)
         (simp add: kinds_ok_def status_nodes_def status_entry_def unresolved_note_def)
  next
    case (Found sf name g)
    from Found(5) show ?thesis by (rule proceed)
  next
    case (Block sf)
    from Block(4) show ?thesis by (rule proceed)
  next
    case (File sf)
    from File(4) show ?thesis by (rule proceed)
  qed
qed

lemma kinds_finish:
  "kinds_ok q (Awaiting sc) \<Longrightarrow> kinds_ok q (Resolved (fst (finish sc u)))"
  by (simp add: kinds_ok_def status_nodes_def status_entry_def finish_def Let_def)

lemma kinds_on_result:
  assumes "kinds_ok q (Awaiting sc)" and "no_entry_point (nodes r)"
  shows "kinds_ok q (Awaiting (fst (on_result c r sc u)))"
  using assms
  by (cases "localNodes sc")
     (auto simp: kinds_ok_def status_nodes_def status_entry_def on_result_def Let_def
        split: option.splits)

lemma frames_kinds_deliver:
  assumes kinds: "frames_kinds (frames sv)" and ord: "tree_ordered (frames sv)"
    and j: "j < length (frames sv)"
  shows "frames_kinds (frames (deliver j sv))"
proof (cases "fr_status (frames sv ! j)")
  case (Resolved r)
  show ?thesis
  proof (cases "fr_then (frames sv ! j)")
    case None
    with Resolved kinds show ?thesis by (simp add: deliver_def)
  next
    case (Some pc)
    obtain p c where pc: "pc = (p, c)" by (cases pc)
    from ord j Some pc have "0 < j" by (auto simp: tree_ordered_def)
    with kinds j Resolved have r: "no_entry_point (nodes r)"
      by (auto simp: frames_kinds_def kinds_ok_def status_nodes_def)
    show ?thesis
    proof (cases "p < length (frames sv) \<and> (\<exists>sc. fr_status (frames sv ! p) = Awaiting sc)")
      case True
      then obtain sc where p: "p < length (frames sv)" and sc: "fr_status (frames sv ! p) = Awaiting sc"
        by blast
      from kinds p sc have "kinds_ok (fr_request (frames sv ! p)) (Awaiting sc)"
        by (auto simp: frames_kinds_def)
      from kinds_on_result [OF this r, of c "next_uuid sv"] kinds p
      have "frames_kinds (set_status p (Awaiting (fst (on_result c r sc (next_uuid sv)))) (frames sv))"
        by (simp add: frames_kinds_update)
      then have "frames_kinds (set_status j Delivered
          (set_status p (Awaiting (fst (on_result c r sc (next_uuid sv)))) (frames sv)))"
        using j by (simp add: frames_kinds_update)
      with Resolved Some pc p sc show ?thesis
        by (simp add: deliver_def case_prod_beta)
    next
      case False
      then have "deliver j sv = sv\<lparr>frames := set_status j Delivered (frames sv)\<rparr>"
        using Resolved Some pc by (auto simp: deliver_def split: status.splits)
      with kinds j show ?thesis by (simp add: frames_kinds_update)
    qed
  qed
qed (simp_all add: deliver_def assms)

lemma frames_kinds_step:
  assumes kinds: "frames_kinds (frames sv)" and ord: "tree_ordered (frames sv)"
    and i: "i < length (frames sv)"
  shows "frames_kinds (frames (step project i sv))"
proof (cases "fr_status (frames sv ! i)")
  case Loading
  with frames_kinds_resume [OF kinds i] show ?thesis by (simp add: step_def)
next
  case (Awaiting sc)
  from kinds i Awaiting have "kinds_ok (fr_request (frames sv ! i)) (Awaiting sc)"
    by (auto simp: frames_kinds_def)
  from kinds_finish [OF this] Awaiting kinds i show ?thesis
    by (simp add: step_def complete_def case_prod_beta frames_kinds_update)
next
  case (Resolved r)
  with frames_kinds_deliver [OF kinds ord i] show ?thesis by (simp add: step_def)
next
  case Delivered
  with kinds show ?thesis by (simp add: step_def)
qed

lemma start_ordered: "tree_ordered (frames (start q visited uuid))"
  using start_status [of q visited] by (auto simp: start_def tree_ordered_def)

lemma parse_kinds:
  assumes "parseFunctionCalls project sched visited uuid q = Some r"
  shows "kinds_ok q (Resolved r)"
proof -
  from assms obtain sv where run: "run project sched 0 (start q visited uuid) = Some sv"
    and res: "fr_status (frames sv ! 0) = Resolved r"
    by (auto simp: parseFunctionCalls_start split: option.splits status.splits)
  let ?P = "\<lambda>sv. frames_kinds (frames sv) \<and> tree_ordered (frames sv) \<and> 0 < length (frames sv)
      \<and> fr_request (frames sv ! 0) = q"
  have "?P sv \<and> runnable sv = []"
  proof (rule run_invariant [where P = ?P, OF _ run])
    show "?P (start q visited uuid)"
      using start_status [of q visited] start_ordered [of q visited uuid]
      by (auto simp: start_def frames_kinds_def)
    fix sv i assume P: "?P sv" and "i \<in> set (runnable sv)"
    then have i: "i < length (frames sv)" by (simp add: runnable_iff)
    have "fr_request (frames (step project i sv) ! 0) = fr_request (frames sv ! 0)"
      using P by (auto simp: step_def resume_def complete_def deliver_def Let_def nth_append
          split: status.splits resolution.splits option.splits prod.splits)
    with P i show "?P (step project i sv)"
      using frames_kinds_step [of sv i project] tree_ordered_step [of sv i project]
        length_step [of sv project i]
      by auto
  qed
  with res show ?thesis by (auto simp: frames_kinds_def)
qed

subsection \<open>Visited keys and entry Steps\<close>

lemma entry_keys_simps [simp]:
  "entry_keys [] = []"
  "entry_keys (xs @ ys) = entry_keys xs @ entry_keys ys"
  by (simp_all add: entry_keys_def)







lemma key_count_simps [simp]:
  "key_count k [] = 0"
  "key_count k (f # fs) = count_list (frame_keys f) k + key_count k fs"
  "key_count k (fs @ gs) = key_count k fs + key_count k gs"
  by (simp_all add: key_count_def)


lemma frame_keys_status [simp]:
  "frame_keys (f\<lparr>fr_status := Loading\<rparr>) = [visitedKey (fr_request f)]"
  "frame_keys (f\<lparr>fr_status := Awaiting sc\<rparr>) = entry_keys (localNodes sc)"
  "frame_keys (f\<lparr>fr_status := Resolved r\<rparr>) = entry_keys (nodes r)"
  "frame_keys (f\<lparr>fr_status := Delivered\<rparr>) = []"
  by (simp_all add: frame_keys_def)




lemma finish_nodes [simp]: "nodes (fst (finish sc u)) = localNodes sc"
  by (simp add: finish_def Let_def)






subsection \<open>Every visited key keeps its entry Step\<close>





















subsection \<open>The visited keys are closed under the calls followed\<close>



lemma fr_request_set_status [simp]:
  "j < length fs \<Longrightarrow> fr_request (set_status i st fs ! j) = fr_request (fs ! j)"
  by (simp add: nth_set_status)










section \<open>The scenario of a caller and its helper\<close>

text \<open>
  C1. In \<^verbatim>\<open>a.ts\<close>, \<^verbatim>\<open>main\<close> calls \<^verbatim>\<open>helper\<close>. Whatever the scheduler, the top-level
  extraction of \<^verbatim>\<open>main\<close> returns the five Steps Entry(main), Exit(main), Call(helper),
  the entry of helper and Exit(helper), and exactly four Flows: Entry(main) to
  Call(helper), the entry of helper to Exit(helper), Call(helper) to the entry of
  helper, and Exit(helper) back to Call(helper). No Flow leads from Exit(helper) to
  Exit(main): no Flow reaches Exit(main) at all.
\<close>

theorem scenario_main_helper:
  "extract_top a_project sched {} 0 ''a.ts'' (Some ''main'') None None = Some scenario_result
   \<and> map (\<lambda>n. (nid n, label n, ntype n)) (nodes scenario_result) =
       [(0, ''main'', EntryPoint), (1, ''Exit main'', ExitPoint), (2, ''Call: helper'', Function),
        (4, ''helper'', Function), (5, ''Exit helper'', ExitPoint)]
   \<and> map (\<lambda>e. (efrom e, eto e)) (edges scenario_result) = [(0, 2), (4, 5), (2, 4), (5, 2)]"
proof -
  have "map (\<lambda>n. (nid n, label n, ntype n)) (nodes scenario_result) =
       [(0, ''main'', EntryPoint), (1, ''Exit main'', ExitPoint), (2, ''Call: helper'', Function),
        (4, ''helper'', Function), (5, ''Exit helper'', ExitPoint)]"
    by (simp add: scenario_result_def)
  moreover have "map (\<lambda>e. (efrom e, eto e)) (edges scenario_result) = [(0, 2), (4, 5), (2, 4), (5, 2)]"
    by (simp add: scenario_result_def)
  ultimately show ?thesis using scenario_extract [of sched] by blast
qed

section \<open>Unresolved function names\<close>

text \<open>
  C4. When the file is loaded (\<open>sourceFile\<close> is what the invocation holds then), a
  non-empty function name is given and \<^verbatim>\<open>findFunctionByName\<close> finds no declaration:
  the top-level request returns the empty result, and a recursive invocation (one that
  passes the visited test) returns a single Note Step labelled \<^verbatim>\<open>Unresolved: <name>\<close>
  whose id is both the entry and the exit id.
\<close>

theorem unresolved_function:
  assumes "project path 0 = Some sourceFile" and "name \<noteq> []"
    and "findFunctionByName sourceFile name startLine = None"
  shows "extract_top project sched visited uuid path (Some name) startLine endLine = Some empty_result
    \<and> (path @ ''::'' @ name \<notin> visited \<longrightarrow>
         parseFunctionCalls project sched visited uuid
           \<lparr>q_filePath = path, q_functionName = Some name, q_startLine = startLine,
            q_endLine = endLine, q_isRecursiveCall = True, q_callerNodeId = Some caller\<rparr>
         = Some \<lparr>nodes = [\<lparr>nid = uuid, label = ''Unresolved: '' @ name, ntype = Note,
                    codeReference = None,
                    description = Some (''Function '' @ name @ '' in '' @ path
                       @ '' not found during recursive call.'')\<rparr>],
                 edges = [], entryNodeId = Some uuid, exitNodeId = Some uuid\<rparr>)"
proof
  let ?q = "\<lparr>q_filePath = path, q_functionName = Some name, q_startLine = startLine,
        q_endLine = endLine, q_isRecursiveCall = False, q_callerNodeId = None\<rparr>"
  have "resolve_scope (project (q_filePath ?q) 0) ?q uuid = Return empty_result uuid"
    using assms by (simp add: resolve_scope_def truthy_def)
  from lone_return [where project = project, OF this]
  show "extract_top project sched visited uuid path (Some name) startLine endLine = Some empty_result"
    by (simp add: extract_top_def parseFunctionCalls_def enter_def)
next
  let ?q = "\<lparr>q_filePath = path, q_functionName = Some name, q_startLine = startLine,
            q_endLine = endLine, q_isRecursiveCall = True, q_callerNodeId = Some caller\<rparr>"
  let ?r = "\<lparr>nodes = [\<lparr>nid = uuid, label = ''Unresolved: '' @ name, ntype = Note,
                    codeReference = None,
                    description = Some (''Function '' @ name @ '' in '' @ path
                       @ '' not found during recursive call.'')\<rparr>],
                 edges = [], entryNodeId = Some uuid, exitNodeId = Some uuid\<rparr>"
  have "resolve_scope (project (q_filePath ?q) 0) ?q uuid = Return ?r (Suc uuid)"
    using assms by (simp add: resolve_scope_def truthy_def unresolved_note_def)
  from lone_return [where project = project, OF this]
  show "path @ ''::'' @ name \<notin> visited \<longrightarrow> parseFunctionCalls project sched visited uuid ?q = Some ?r"
    using assms(2) by (simp add: parseFunctionCalls_def enter_def visitedKey_def)
qed

theorem unresolved_function_witness:
  "a_project ''a.ts'' 0 = Some a_ts \<and> ''absent'' \<noteq> []
   \<and> findFunctionByName a_ts ''absent'' (Some 7) = None
   \<and> extract_top a_project fifo {''stale''} 3 ''a.ts'' (Some ''absent'') (Some 7) None
       = Some empty_result
   \<and> parseFunctionCalls a_project fifo {''a.ts::main''} 3
         \<lparr>q_filePath = ''a.ts'', q_functionName = Some ''absent'', q_startLine = Some 7,
          q_endLine = None, q_isRecursiveCall = True, q_callerNodeId = Some 2\<rparr>
       = Some \<lparr>nodes = [\<lparr>nid = 3, label = ''Unresolved: absent'', ntype = Note,
                  codeReference = None,
                  description = Some ''Function absent in a.ts not found during recursive call.''\<rparr>],
               edges = [], entryNodeId = Some 3, exitNodeId = Some 3\<rparr>"
proof -
  have h1: "a_project ''a.ts'' 0 = Some a_ts" by (simp add: a_project_def)
  have h2: "''absent'' \<noteq> []" by simp
  have h3: "findFunctionByName a_ts ''absent'' (Some 7) = None" by code_simp
  from unresolved_function [where project = a_project and path = "''a.ts''" and sched = fifo
      and visited = "{''a.ts::main''}" and uuid = 3 and endLine = None and caller = 2, OF h1 h2 h3]
  have rec: "parseFunctionCalls a_project fifo {''a.ts::main''} 3
         \<lparr>q_filePath = ''a.ts'', q_functionName = Some ''absent'', q_startLine = Some 7,
          q_endLine = None, q_isRecursiveCall = True, q_callerNodeId = Some 2\<rparr>
       = Some \<lparr>nodes = [\<lparr>nid = 3, label = ''Unresolved: absent'', ntype = Note,
                  codeReference = None,
                  description = Some ''Function absent in a.ts not found during recursive call.''\<rparr>],
               edges = [], entryNodeId = Some 3, exitNodeId = Some 3\<rparr>"
    by simp
  from unresolved_function [where project = a_project and path = "''a.ts''" and sched = fifo
      and visited = "{''stale''}" and uuid = 3 and endLine = None and caller = 2, OF h1 h2 h3]
  have top: "extract_top a_project fifo {''stale''} 3 ''a.ts'' (Some ''absent'') (Some 7) None
       = Some empty_result"
    by simp
  from h1 h2 h3 top rec show ?thesis by blast
qed

section \<open>Inverted line bounds\<close>

text \<open>
  C5, as the code behaves. A top-level request whose \<open>endLine\<close> lies before its
  \<open>startLine\<close> is not rejected. When the file is loaded and its nodes end no earlier
  than they start, the walk creates no Step, and the result consists of the Entry and
  Exit Steps of the scope joined by one DirectCall Flow: those of the block for a
  request without function name, those of the function for a request naming a
  function that is found. (A request naming a function that is not found returns the
  empty result, whatever its bounds.)
\<close>

theorem inverted_bounds:
  assumes "project path 0 = Some sourceFile" and "e < s"
  shows "(\<not> truthy functionName \<and> well_formed_list (file_children sourceFile) \<longrightarrow>
            (\<exists>r. extract_top project sched visited uuid path functionName (Some s) (Some e) = Some r
               \<and> boundary_only uuid r))
       \<and> (\<forall>name f. functionName = Some name \<and> name \<noteq> []
              \<and> findFunctionByName sourceFile name (Some s) = Some f
              \<and> well_formed_list (fn_children f) \<longrightarrow>
            (\<exists>r. extract_top project sched visited uuid path functionName (Some s) (Some e) = Some r
               \<and> boundary_only uuid r
               \<and> nodes r = function_boundary sourceFile
                     \<lparr>q_filePath = path, q_functionName = functionName, q_startLine = Some s,
                      q_endLine = Some e, q_isRecursiveCall = False, q_callerNodeId = None\<rparr>
                     name f uuid))"
proof (intro conjI allI impI)
  let ?q = "\<lparr>q_filePath = path, q_functionName = functionName, q_startLine = Some s,
        q_endLine = Some e, q_isRecursiveCall = False, q_callerNodeId = None\<rparr>"
  assume a: "\<not> truthy functionName \<and> well_formed_list (file_children sourceFile)"
  have rs: "resolve_scope (project (q_filePath ?q) 0) ?q uuid =
      Proceed (file_children sourceFile) (block_boundary ?q uuid) (Some uuid) (Some (Suc uuid))
        (Suc (Suc uuid))"
    using assms a by (simp add: resolve_scope_def)
  have len: "length (block_boundary ?q uuid) = 2"
    and ids: "map nid (block_boundary ?q uuid) = [uuid, Suc uuid]"
    and kinds: "map ntype (block_boundary ?q uuid) = [EntryPoint, ExitPoint]"
    by (simp_all add: block_boundary_def)
  have v: "visit_all 0 (source_path (project (q_filePath ?q) 0)) (q_startLine ?q) (q_endLine ?q)
      (file_children sourceFile) sc = sc" for sc
    using visit_inverted_window(2) [OF assms(2)] a by simp
  from lone_scope [where project = project, OF rs v] len ids kinds
  show "\<exists>r. extract_top project sched visited uuid path functionName (Some s) (Some e) = Some r
      \<and> boundary_only uuid r"
    by (simp add: extract_top_def parseFunctionCalls_def enter_def finish_def boundary_only_def)
next
  fix name f
  let ?q = "\<lparr>q_filePath = path, q_functionName = functionName, q_startLine = Some s,
        q_endLine = Some e, q_isRecursiveCall = False, q_callerNodeId = None\<rparr>"
  assume a: "functionName = Some name \<and> name \<noteq> []
      \<and> findFunctionByName sourceFile name (Some s) = Some f \<and> well_formed_list (fn_children f)"
  have rs: "resolve_scope (project (q_filePath ?q) 0) ?q uuid =
      Proceed (fn_children f) (function_boundary sourceFile ?q name f uuid) (Some uuid)
        (Some (Suc uuid)) (Suc (Suc uuid))"
    using assms a by (simp add: resolve_scope_def truthy_def)
  have len: "length (function_boundary sourceFile ?q name f uuid) = 2"
    and ids: "map nid (function_boundary sourceFile ?q name f uuid) = [uuid, Suc uuid]"
    and kinds: "map ntype (function_boundary sourceFile ?q name f uuid) = [EntryPoint, ExitPoint]"
    by (simp_all add: function_boundary_def)
  have v: "visit_all 0 (source_path (project (q_filePath ?q) 0)) (q_startLine ?q) (q_endLine ?q)
      (fn_children f) sc = sc" for sc
    using visit_inverted_window(2) [OF assms(2)] a by simp
  from lone_scope [where project = project, OF rs v] len ids kinds
  show "\<exists>r. extract_top project sched visited uuid path functionName (Some s) (Some e) = Some r
      \<and> boundary_only uuid r
      \<and> nodes r = function_boundary sourceFile ?q name f uuid"
    by (simp add: extract_top_def parseFunctionCalls_def enter_def finish_def boundary_only_def)
qed

theorem inverted_bounds_witness:
  "a_project ''a.ts'' 0 = Some a_ts \<and> (3::int) < 5 \<and> (0::int) < 1
   \<and> \<not> truthy None \<and> well_formed_list (file_children a_ts)
   \<and> findFunctionByName a_ts ''main'' (Some 1) = Some main_fn
   \<and> well_formed_list (fn_children main_fn)
   \<and> (\<exists>r. extract_top a_project fifo {} 0 ''a.ts'' None (Some 5) (Some 3) = Some r
         \<and> boundary_only 0 r)
   \<and> (\<exists>r. extract_top a_project fifo {} 0 ''a.ts'' (Some ''main'') (Some 1) (Some 0) = Some r
         \<and> boundary_only 0 r \<and> map label (nodes r) = [''main'', ''Exit main''])"
proof -
  have h1: "a_project ''a.ts'' 0 = Some a_ts" by (simp add: a_project_def)
  have h2: "(3::int) < 5" "(0::int) < 1" by simp_all
  have h3: "\<not> truthy None" by (simp add: truthy_def)
  have h4: "well_formed_list (file_children a_ts)" by code_simp
  have h5: "findFunctionByName a_ts ''main'' (Some 1) = Some main_fn" by code_simp
  have h6: "well_formed_list (fn_children main_fn)" by code_simp
  from inverted_bounds [where project = a_project and path = "''a.ts''" and sched = fifo
      and visited = "{}" and uuid = 0 and functionName = None, OF h1 h2(1)] h3 h4
  have block: "\<exists>r. extract_top a_project fifo {} 0 ''a.ts'' None (Some 5) (Some 3) = Some r
      \<and> boundary_only 0 r"
    by blast
  from inverted_bounds [where project = a_project and path = "''a.ts''" and sched = fifo
      and visited = "{}" and uuid = 0 and functionName = "Some ''main''", OF h1 h2(2)] h5 h6
  have "\<exists>r. extract_top a_project fifo {} 0 ''a.ts'' (Some ''main'') (Some 1) (Some 0) = Some r
      \<and> boundary_only 0 r
      \<and> nodes r = function_boundary a_ts
            \<lparr>q_filePath = ''a.ts'', q_functionName = Some ''main'', q_startLine = Some 1,
             q_endLine = Some 0, q_isRecursiveCall = False, q_callerNodeId = None\<rparr>
            ''main'' main_fn 0"
    by simp
  then have named: "\<exists>r. extract_top a_project fifo {} 0 ''a.ts'' (Some ''main'') (Some 1) (Some 0) = Some r
      \<and> boundary_only 0 r \<and> map label (nodes r) = [''main'', ''Exit main'']"
    by (auto simp: function_boundary_def)
  from h1 h2 h3 h4 h5 h6 block named show ?thesis by blast
qed

text \<open>
  The claim itself fails: with \<open>startLine = 5\<close> and \<open>endLine = 3\<close> on \<^verbatim>\<open>a.ts\<close> the
  result is not the empty one, and it has two Steps.
\<close>

theorem inverted_bounds_counterexample:
  "extract_top a_project fifo {} 0 ''a.ts'' None (Some 5) (Some 3) \<noteq> Some empty_result
   \<and> map_option (\<lambda>r. map ntype (nodes r))
         (extract_top a_project fifo {} 0 ''a.ts'' None (Some 5) (Some 3))
       = Some [EntryPoint, ExitPoint]"
  by code_simp

section \<open>The line window\<close>

text \<open>
  C6, as the code behaves. In the walk of a scope bounded by \<open>startLine = s\<close> and
  \<open>endLine = e\<close>, every Step the walk adds is a Function Step whose call expression lies
  inside the window, and a node lying entirely before \<open>s\<close> or entirely after \<open>e\<close> is
  passed over together with its subtree. (The recursive expansion of a callee is a
  separate invocation without \<open>endLine\<close>; its walk is not bounded.)
\<close>

theorem window_bounds_walk:
  "(\<exists>added. sc_nodes (visit_all self path (Some s) (Some e) ns sc) = sc_nodes sc @ added
      \<and> list_all (\<lambda>n. ntype n = Function \<and> within_window s e n) added)
   \<and> (startLineNumber sp \<le> endLineNumber sp \<longrightarrow>
        endLineNumber sp < s \<or> e < startLineNumber sp \<longrightarrow>
        visit self path (Some s) (Some e) (Node sp k children) sc = sc)"
  using visit_nodes_within_window(2) [of self path "Some s" "Some e" ns sc s e]
    visit_disjoint [of sp s e self path k children sc]
  by blast

theorem window_bounds_walk_witness:
  "(\<exists>added.
      sc_nodes (visit_all 0 ''w.ts'' (Some 5) (Some 10) (file_children w_ts)
         \<lparr>sc_visited = {}, sc_uuid = 2, sc_nodes = [], sc_edges = [], sc_last = 0,
          sc_spawned = []\<rparr>) = [] @ added
      \<and> list_all (\<lambda>n. ntype n = Function \<and> within_window 5 10 n) added)
   \<and> visit 0 ''w.ts'' (Some 5) (Some 10) (Node (fn_span w_helper_fn) OtherSyntax (fn_children w_helper_fn))
         \<lparr>sc_visited = {}, sc_uuid = 2, sc_nodes = [], sc_edges = [], sc_last = 0,
          sc_spawned = []\<rparr>
       = \<lparr>sc_visited = {}, sc_uuid = 2, sc_nodes = [], sc_edges = [], sc_last = 0,
          sc_spawned = []\<rparr>"
proof -
  have h1: "startLineNumber (fn_span w_helper_fn) \<le> endLineNumber (fn_span w_helper_fn)"
    by code_simp
  have h2: "endLineNumber (fn_span w_helper_fn) < 5 \<or> 10 < startLineNumber (fn_span w_helper_fn)"
    by code_simp
  from window_bounds_walk [of 0 "''w.ts''" 5 10 "file_children w_ts"
      "\<lparr>sc_visited = {}, sc_uuid = 2, sc_nodes = [], sc_edges = [], sc_last = 0,
          sc_spawned = []\<rparr>" "fn_span w_helper_fn" OtherSyntax "fn_children w_helper_fn"] h1 h2
  show ?thesis by simp
qed

text \<open>
  The claim itself fails for the result of a bounded request: with the window 5 to 10
  on \<^verbatim>\<open>w.ts\<close>, the call of \<^verbatim>\<open>helper\<close> on line 6 is expanded, and the result has a
  Function Step for the call of \<^verbatim>\<open>foo\<close> on line 22.
\<close>

theorem window_bounds_counterexample:
  "foo_call_step \<in> set (nodes (the (extract_top w_project fifo {} 0 ''w.ts'' None (Some 5) (Some 10))))
   \<and> ntype foo_call_step = Function \<and> \<not> within_window 5 10 foo_call_step"
  by code_simp

section \<open>The order of the declaration lookup\<close>

text \<open>
  C7, as the code behaves. \<^verbatim>\<open>findFunctionByName\<close> returns the first accepted candidate
  in this order: the top-level functions; then, class by class, the methods of the
  class followed by its properties initialized with an arrow function; then the
  top-level variable declarations initialized with an arrow function or a function
  expression. A candidate is accepted when its name is the given one and, if an
  anchor line is supplied, the line lies within its extent, both ends included.
\<close>

theorem findFunctionByName_order:
  "findFunctionByName sourceFile name anchorLine = first_match name anchorLine (search_order sourceFile)"
  by (rule findFunctionByName_search)

theorem findFunctionByName_order_witness:
  "findFunctionByName two_classes ''foo'' (Some 2) = first_match ''foo'' (Some 2) (search_order two_classes)
   \<and> findFunctionByName two_classes ''foo'' (Some 2) = Some arrow_foo
   \<and> findFunctionByName two_classes ''foo'' (Some 5) = Some method_foo
   \<and> findFunctionByName two_classes ''foo'' (Some 6) = None"
proof -
  have "first_match ''foo'' (Some 2) (search_order two_classes) = Some arrow_foo" by code_simp
  moreover have "findFunctionByName two_classes ''foo'' (Some 5) = Some method_foo" by code_simp
  moreover have "findFunctionByName two_classes ''foo'' (Some 6) = None" by code_simp
  ultimately show ?thesis
    using findFunctionByName_order [of two_classes "''foo''" "Some 2"] by simp
qed

text \<open>
  The claimed order fails when an earlier class has a matching arrow-function
  property and a later class a matching method: the property of the earlier class is
  returned.
\<close>

theorem findFunctionByName_order_counterexample:
  "findFunctionByName two_classes ''foo'' None = Some arrow_foo
   \<and> first_match ''foo'' None (claimed_order two_classes) = Some method_foo
   \<and> findFunctionByName two_classes ''foo'' None \<noteq> first_match ''foo'' None (claimed_order two_classes)"
  by code_simp

section \<open>A scope without calls\<close>

text \<open>
  C8, as the code behaves. The walk starts at the declaration of the function, not at
  its body. When a request, top-level or recursive (and then for a key not yet
  visited), names a function that is found and no call expression occurs anywhere in
  the declaration, parameters with their default values included, the result consists
  of the two boundary Steps of the function and exactly one Flow, a DirectCall from
  the entry Step to the exit Step.
\<close>

theorem empty_scope_edge:
  assumes "project (q_filePath q) 0 = Some sourceFile"
    and "q_functionName q = Some name" and "name \<noteq> []"
    and "findFunctionByName sourceFile name (q_startLine q) = Some f"
    and "\<not> has_call_list (fn_children f)"
    and "q_isRecursiveCall q \<longrightarrow> visitedKey q \<notin> visited"
  shows "\<exists>r. parseFunctionCalls project sched visited uuid q = Some r
           \<and> edges r = [\<lparr>eid = uuid + 2, efrom = uuid, eto = uuid + 1, etype = DirectCall\<rparr>]
           \<and> entryNodeId r = Some uuid \<and> exitNodeId r = Some (uuid + 1)
           \<and> nodes r = function_boundary sourceFile q name f uuid
           \<and> map nid (nodes r) = [uuid, uuid + 1]"
proof -
  have rs: "resolve_scope (project (q_filePath q) 0) q uuid =
      Proceed (fn_children f) (function_boundary sourceFile q name f uuid) (Some uuid)
        (Some (Suc uuid)) (Suc (Suc uuid))"
    using assms by (simp add: resolve_scope_def truthy_def)
  have len: "length (function_boundary sourceFile q name f uuid) = 2"
    and ids: "map nid (function_boundary sourceFile q name f uuid) = [uuid, Suc uuid]"
    by (simp_all add: function_boundary_def)
  have en: "enter q visited = (insert (visitedKey q) (if q_isRecursiveCall q then visited else {}), Loading)"
    using assms(6) by (simp add: enter_def)
  from lone_scope [where project = project and q = q, OF rs visit_without_calls(2) [OF assms(5)]] len ids
  show ?thesis
    by (simp add: parseFunctionCalls_def en finish_def)
qed

theorem empty_scope_edge_witness:
  "a_project (q_filePath (target_request helper_decl 2)) 0 = Some a_ts
   \<and> q_functionName (target_request helper_decl 2) = Some ''helper'' \<and> ''helper'' \<noteq> []
   \<and> findFunctionByName a_ts ''helper'' (q_startLine (target_request helper_decl 2)) = Some helper_fn
   \<and> \<not> has_call_list (fn_children helper_fn)
   \<and> visitedKey (target_request helper_decl 2) \<notin> {''a.ts::main''}
   \<and> (\<exists>r. parseFunctionCalls a_project fifo {''a.ts::main''} 4 (target_request helper_decl 2) = Some r
         \<and> edges r = [\<lparr>eid = 6, efrom = 4, eto = 5, etype = DirectCall\<rparr>]
         \<and> entryNodeId r = Some 4 \<and> exitNodeId r = Some 5 \<and> map nid (nodes r) = [4, 5]
         \<and> map ntype (nodes r) = [Function, ExitPoint])"
proof -
  let ?q = "target_request helper_decl 2"
  have h1: "a_project (q_filePath ?q) 0 = Some a_ts" by code_simp
  have h2: "q_functionName ?q = Some ''helper''" by code_simp
  have h3: "''helper'' \<noteq> []" by simp
  have h4: "findFunctionByName a_ts ''helper'' (q_startLine ?q) = Some helper_fn" by code_simp
  have h5: "\<not> has_call_list (fn_children helper_fn)" by code_simp
  have h6: "visitedKey ?q \<notin> {''a.ts::main''}" by code_simp
  from h6 have h6': "q_isRecursiveCall ?q \<longrightarrow> visitedKey ?q \<notin> {''a.ts::main''}" by simp
  from empty_scope_edge [where project = a_project and q = ?q and sched = fifo
      and visited = "{''a.ts::main''}" and uuid = 4, OF h1 h2 h3 h4 h5 h6']
  obtain r where r: "parseFunctionCalls a_project fifo {''a.ts::main''} 4 ?q = Some r
      \<and> edges r = [\<lparr>eid = 4 + 2, efrom = 4, eto = 4 + 1, etype = DirectCall\<rparr>]
      \<and> entryNodeId r = Some 4 \<and> exitNodeId r = Some (4 + 1)
      \<and> nodes r = function_boundary a_ts ?q ''helper'' helper_fn 4
      \<and> map nid (nodes r) = [4, 4 + 1]" ..
  from r have "parseFunctionCalls a_project fifo {''a.ts::main''} 4 ?q = Some r
         \<and> edges r = [\<lparr>eid = 6, efrom = 4, eto = 5, etype = DirectCall\<rparr>]
         \<and> entryNodeId r = Some 4 \<and> exitNodeId r = Some 5 \<and> map nid (nodes r) = [4, 5]
         \<and> map ntype (nodes r) = [Function, ExitPoint]"
    by (simp add: function_boundary_def target_request_def)
  then have "\<exists>r. parseFunctionCalls a_project fifo {''a.ts::main''} 4 ?q = Some r
         \<and> edges r = [\<lparr>eid = 6, efrom = 4, eto = 5, etype = DirectCall\<rparr>]
         \<and> entryNodeId r = Some 4 \<and> exitNodeId r = Some 5 \<and> map nid (nodes r) = [4, 5]
         \<and> map ntype (nodes r) = [Function, ExitPoint]"
    by (rule exI [of _ r])
  with h1 h2 h3 h4 h5 h6 show ?thesis by simp
qed

text \<open>
  The claim itself fails when the body has no call but a parameter has one as its
  default value: for \<^verbatim>\<open>function f(x = g()) { return x; }\<close> the children of the body
  block hold no call expression, yet the result has a Function Step for the call of
  \<^verbatim>\<open>g\<close> and two Flows, from the entry Step to that Step and from there to the exit
  Step; none connects the entry Step directly to the exit Step.
\<close>

theorem empty_scope_edge_counterexample:
  "\<not> has_call_list default_body
   \<and> fn_children default_fn ! 2 = Node (at_lines 1 21 1 34) OtherSyntax default_body
   \<and> findFunctionByName p_ts ''f'' None = Some default_fn
   \<and> map_option (\<lambda>r. (map (\<lambda>n. (nid n, label n)) (nodes r), map (\<lambda>e. (efrom e, eto e)) (edges r)))
         (extract_top p_project fifo {} 0 ''p.ts'' (Some ''f'') None None)
       = Some ([(0, ''f''), (1, ''Exit f''), (2, ''Call: g'')], [(0, 2), (2, 1)])"
  by code_simp

section \<open>Independence from earlier requests\<close>

text \<open>
  C9. The result of a top-level request does not depend on the visited set that earlier
  requests left behind: for the same project, scheduler and id source, any two visited
  sets give the same result.
\<close>

theorem visited_set_irrelevant:
  "extract_top project sched visited1 uuid path functionName startLine endLine
   = extract_top project sched visited2 uuid path functionName startLine endLine"
  by (simp add: extract_top_def parseFunctionCalls_def enter_def)

theorem visited_set_irrelevant_witness:
  "extract_top a_project fifo {''a.ts::main'', ''a.ts::helper''} 0 ''a.ts'' (Some ''main'') None None
   = extract_top a_project fifo {} 0 ''a.ts'' (Some ''main'') None None"
  using visited_set_irrelevant [of a_project fifo "{''a.ts::main'', ''a.ts::helper''}" 0
      "''a.ts''" "Some ''main''" None None "{}"]
  by simp


section \<open>References inside a result\<close>

text \<open>
  C3. Whenever a request returns a result, every Flow of the result runs between ids
  of Steps of the result, and its entry and exit ids, when not null, are ids of Steps
  of the result. Over a project that hands out finitely many source files every request
  does return such a result, whatever the scheduler.
\<close>

theorem result_references_resolve:
  "(parseFunctionCalls project sched visited uuid q = Some r \<longrightarrow> result_closed r)
   \<and> (finite (views project) \<longrightarrow>
        (\<exists>r'. parseFunctionCalls project sched visited uuid q = Some r' \<and> result_closed r'))"
proof (intro conjI impI)
  assume "parseFunctionCalls project sched visited uuid q = Some r"
  then show "result_closed r" by (rule parse_result_closed)
next
  assume "finite (views project)"
  then obtain sv r' where "parseFunctionCalls project sched visited uuid q = Some r'"
    by (rule parse_outcome [where P = "\<lambda>sv. True" and q = q and visited = visited
          and uuid = uuid and sched = sched]) simp_all
  moreover from this have "result_closed r'" by (rule parse_result_closed)
  ultimately show "\<exists>r'. parseFunctionCalls project sched visited uuid q = Some r' \<and> result_closed r'"
    by blast
qed

theorem result_references_resolve_witness:
  "parseFunctionCalls a_project fifo {} 0
      \<lparr>q_filePath = ''a.ts'', q_functionName = Some ''main'', q_startLine = None,
       q_endLine = None, q_isRecursiveCall = False, q_callerNodeId = None\<rparr> = Some scenario_result
   \<and> finite (views a_project) \<and> result_closed scenario_result"
proof -
  have run: "parseFunctionCalls a_project fifo {} 0
      \<lparr>q_filePath = ''a.ts'', q_functionName = Some ''main'', q_startLine = None,
       q_endLine = None, q_isRecursiveCall = False, q_callerNodeId = None\<rparr> = Some scenario_result"
    using scenario_extract [of fifo] by (simp add: extract_top_def)
  with result_references_resolve [of a_project fifo "{}" 0
      "\<lparr>q_filePath = ''a.ts'', q_functionName = Some ''main'', q_startLine = None,
       q_endLine = None, q_isRecursiveCall = False, q_callerNodeId = None\<rparr>" scenario_result]
    finite_a_project
  show ?thesis by blast
qed

section \<open>Kinds of the boundary Steps\<close>

text \<open>
  C10. In the result of a request, a Step of kind EntryPoint occurs only when the
  request is not a recursive invocation, and then it is the first Step, the one the
  entry id names; the callees' Steps merged into the result contain none. Whenever
  scope resolution synthesizes boundary Steps, there are two: the entry Step, of kind
  Function for a recursive invocation and EntryPoint otherwise, and the exit Step, of
  kind ExitPoint.
\<close>

theorem entry_point_only_top_level:
  "(parseFunctionCalls project sched visited uuid q = Some r \<longrightarrow>
      (\<forall>n \<in> set (nodes r). ntype n = EntryPoint \<longrightarrow>
         \<not> q_isRecursiveCall q \<and> n = hd (nodes r) \<and> entryNodeId r = Some (nid n)))
   \<and> (resolve_scope loaded q u = Proceed root ns entry exit u' \<longrightarrow>
        (\<exists>a b. ns = [a, b] \<and> entry = Some (nid a) \<and> exit = Some (nid b)
           \<and> ntype a = (if q_isRecursiveCall q then Function else EntryPoint)
           \<and> ntype b = ExitPoint))"
proof (intro conjI impI ballI)
  fix n
  assume parse: "parseFunctionCalls project sched visited uuid q = Some r"
    and n: "n \<in> set (nodes r)" and entry: "ntype n = EntryPoint"
  from parse_kinds [OF parse] have tl: "no_entry_point (tl (nodes r))"
    and rec: "q_isRecursiveCall q \<longrightarrow> no_entry_point (nodes r)"
    and hd: "\<forall>e. entryNodeId r = Some e \<longrightarrow> nodes r \<noteq> [] \<and> nid (hd (nodes r)) = e"
    and some: "nodes r \<noteq> [] \<longrightarrow> entryNodeId r \<noteq> None"
    by (simp_all add: kinds_ok_def status_nodes_def status_entry_def)
  from rec n entry show "\<not> q_isRecursiveCall q" by (auto simp: no_entry_point_def)
  from n obtain a rest where ar: "nodes r = a # rest" by (cases "nodes r") auto
  with tl n entry show "n = hd (nodes r)" by (auto simp: no_entry_point_def)
  with some hd ar show "entryNodeId r = Some (nid n)" by auto
next
  assume "resolve_scope loaded q u = Proceed root ns entry exit u'"
  then show "\<exists>a b. ns = [a, b] \<and> entry = Some (nid a) \<and> exit = Some (nid b)
           \<and> ntype a = (if q_isRecursiveCall q then Function else EntryPoint)
           \<and> ntype b = ExitPoint"
    by (rule resolve_scope_kinds)
qed

theorem entry_point_only_top_level_witness:
  "parseFunctionCalls a_project fifo {} 0
      \<lparr>q_filePath = ''a.ts'', q_functionName = Some ''main'', q_startLine = None,
       q_endLine = None, q_isRecursiveCall = False, q_callerNodeId = None\<rparr> = Some scenario_result
   \<and> map ntype (nodes scenario_result) = [EntryPoint, ExitPoint, Function, Function, ExitPoint]
   \<and> filter (\<lambda>n. ntype n = EntryPoint) (nodes scenario_result) = [hd (nodes scenario_result)]
   \<and> entryNodeId scenario_result = Some (nid (hd (nodes scenario_result)))
   \<and> resolve_scope (Some a_ts) (target_request helper_decl 2) 4
       = Proceed (fn_children helper_fn)
           (function_boundary a_ts (target_request helper_decl 2) ''helper'' helper_fn 4)
           (Some 4) (Some 5) 6
   \<and> map ntype (function_boundary a_ts (target_request helper_decl 2) ''helper'' helper_fn 4)
       = [Function, ExitPoint]"
proof -
  let ?q = "\<lparr>q_filePath = ''a.ts'', q_functionName = Some ''main'', q_startLine = None,
       q_endLine = None, q_isRecursiveCall = False, q_callerNodeId = None\<rparr>"
  let ?c = "target_request helper_decl 2"
  have run: "parseFunctionCalls a_project fifo {} 0 ?q = Some scenario_result"
    using scenario_extract [of fifo] by (simp add: extract_top_def)
  have rs: "resolve_scope (Some a_ts) ?c 4
       = Proceed (fn_children helper_fn) (function_boundary a_ts ?c ''helper'' helper_fn 4)
           (Some 4) (Some 5) 6"
    by code_simp
  have kinds: "map ntype (nodes scenario_result) = [EntryPoint, ExitPoint, Function, Function, ExitPoint]"
    by (simp add: scenario_result_def)
  from entry_point_only_top_level [where project = a_project and sched = fifo and visited = "{}"
      and uuid = 0 and q = ?q and r = scenario_result] run
  have top: "\<forall>n \<in> set (nodes scenario_result). ntype n = EntryPoint \<longrightarrow>
         n = hd (nodes scenario_result) \<and> entryNodeId scenario_result = Some (nid n)"
    by blast
  from entry_point_only_top_level [where loaded = "Some a_ts" and q = ?c and u = 4
      and root = "fn_children helper_fn"
      and ns = "function_boundary a_ts ?c ''helper'' helper_fn 4"
      and entry = "Some 4" and exit = "Some 5" and u' = 6] rs
  have "\<exists>a b. function_boundary a_ts ?c ''helper'' helper_fn 4 = [a, b] \<and> Some 4 = Some (nid a)
           \<and> Some 5 = Some (nid b)
           \<and> ntype a = (if q_isRecursiveCall ?c then Function else EntryPoint)
           \<and> ntype b = ExitPoint"
    by blast
  then have "map ntype (function_boundary a_ts ?c ''helper'' helper_fn 4) = [Function, ExitPoint]"
    by auto
  moreover from top have "filter (\<lambda>n. ntype n = EntryPoint) (nodes scenario_result)
        = [hd (nodes scenario_result)]"
    and "entryNodeId scenario_result = Some (nid (hd (nodes scenario_result)))"
    by (simp_all add: scenario_result_def)
  ultimately show ?thesis using run kinds rs by blast
qed

section \<open>Cycles and repeated callees\<close>




end
